theory Spec2Isabelle
  imports Main "HOL-Library.Sublist"
begin

chapter \<open>Tag generation core: a shallow embedding of the TypeScript sources\<close>

text \<open>
  The development has two parts. The first part translates the functions of the
  repository that the verified properties are about: the edit-distance matcher, the tag
  library index and the tag normalizer (\<^verbatim>\<open>utils/tagHelpers\<close>), the retry wrapper
  (\<^verbatim>\<open>utils/retry.ts\<close>), the error paths of the two providers
  (\<^verbatim>\<open>services/geminiProvider.ts\<close> and the OpenAI-compatible provider), the
  orchestrator (\<^verbatim>\<open>services/llmService\<close>) and the two React controllers
  (\<^verbatim>\<open>useSingleGenerator\<close>, \<^verbatim>\<open>useBatchGenerator\<close>). The second part states and
  proves the properties.

  Conventions. A JavaScript string is a \<^typ>\<open>string\<close>; the alphabet of the model is the
  code units 0 to 255, on which \<^verbatim>\<open>toLowerCase\<close> and \<^verbatim>\<open>trim\<close> are written out
  exactly (the edit distance itself is polymorphic in the alphabet). A JavaScript number
  that holds a length, a counter or a delay is an \<^typ>\<open>int\<close> or a \<^typ>\<open>nat\<close>. A thrown
  exception is the left summand of a sum type. An awaited call into code outside the
  function under study (the network, a provider behind the provider interface) is an
  argument of the model: a function that yields the outcome of the call.
\<close>

section \<open>JavaScript strings\<close>

text \<open>
  \<^verbatim>\<open>String.prototype.toLowerCase\<close> on the code units 0 to 255: the letters A to Z and
  the capital letters of the Latin-1 block (U+00C0 to U+00DE without the multiplication
  sign U+00D7) move up by 32; every other code unit stays.
\<close>

definition lower_char :: "char \<Rightarrow> char" where
  "lower_char c =
     (let n = (of_char c :: nat)
      in if (65 \<le> n \<and> n \<le> 90) \<or> (192 \<le> n \<and> n \<le> 222 \<and> n \<noteq> 215)
         then char_of (n + 32) else c)"

definition toLowerCase :: "string \<Rightarrow> string" where
  "toLowerCase s = map lower_char s"

text \<open>
  \<^verbatim>\<open>String.prototype.trim\<close> removes white space and line terminators at both ends;
  below U+0100 these are tab, line feed, vertical tab, form feed, carriage return, space
  and the no-break space.
\<close>

definition is_js_space :: "char \<Rightarrow> bool" where
  "is_js_space c = ((of_char c :: nat) \<in> {9, 10, 11, 12, 13, 32, 160})"

definition trim :: "string \<Rightarrow> string" where
  "trim s = rev (dropWhile is_js_space (rev (dropWhile is_js_space s)))"

text \<open>
  \<^verbatim>\<open>s.split(sep)\<close> for a separator of one character. The result is never empty:
  the empty string splits into one empty field. (The first branch of the
  \<^theory_text>\<open>case\<close> is never taken for that reason.)
\<close>

fun split_on :: "char \<Rightarrow> string \<Rightarrow> string list" where
  "split_on sep [] = [[]]"
| "split_on sep (c # cs) =
     (if c = sep then [] # split_on sep cs
      else (case split_on sep cs of
              [] \<Rightarrow> [[c]]
            | p # ps \<Rightarrow> (c # p) # ps))"

definition newline :: char where
  "newline = CHR 0x0A"

text \<open>\<^verbatim>\<open>s.includes(sub)\<close>: \<open>sub\<close> occurs in \<open>s\<close> as a contiguous block.\<close>

fun str_includes :: "string \<Rightarrow> string \<Rightarrow> bool" where
  "str_includes [] sub = (sub = [])"
| "str_includes (c # cs) sub = (prefix sub (c # cs) \<or> str_includes cs sub)"

section \<open>The edit-distance matcher: \<^verbatim>\<open>levenshteinDistance\<close>\<close>

text \<open>
  The source fills a matrix \<open>d\<close> of \<open>s.length + 1\<close> rows. An assignment
  \<^verbatim>\<open>a[j] = v\<close> to a JavaScript array overwrites a cell that exists and appends when
  \<open>j\<close> is the length of the array; every assignment of the function is of one of
  these two kinds (the invariants below show it), so holes are not modelled.
\<close>

definition arr_put :: "'b list \<Rightarrow> nat \<Rightarrow> 'b \<Rightarrow> 'b list" where
  "arr_put xs j v = (if j < length xs then xs[j := v] else xs @ [v])"

text \<open>\<^verbatim>\<open>d[i][j] = v\<close>\<close>

definition cell_put :: "int list list \<Rightarrow> nat \<Rightarrow> nat \<Rightarrow> int \<Rightarrow> int list list" where
  "cell_put d i j v = d[i := arr_put (d ! i) j v]"

text \<open>\<^verbatim>\<open>const d = []; for (let i = 0; i <= s.length; i++) d[i] = [i];\<close>\<close>

definition lev_init_rows :: "nat \<Rightarrow> int list list" where
  "lev_init_rows m = fold (\<lambda>i d. arr_put d i [int i]) [0..<Suc m] []"

text \<open>\<^verbatim>\<open>for (let j = 0; j <= t.length; j++) d[0][j] = j;\<close>\<close>

definition lev_init_cols :: "nat \<Rightarrow> int list list \<Rightarrow> int list list" where
  "lev_init_cols n d = fold (\<lambda>j d. cell_put d 0 j (int j)) [0..<Suc n] d"

text \<open>The body of the inner loop: the cost of the substitution, then the minimum of three.\<close>

definition lev_cell :: "'a list \<Rightarrow> 'a list \<Rightarrow> nat \<Rightarrow> nat \<Rightarrow> int list list \<Rightarrow> int list list" where
  "lev_cell s t i j d =
     (let cost = (if s ! (i - 1) = t ! (j - 1) then 0 else 1)
      in cell_put d i j
           (min (d ! (i - 1) ! j + 1)
             (min (d ! i ! (j - 1) + 1) (d ! (i - 1) ! (j - 1) + cost))))"

text \<open>The two nested loops, \<open>i\<close> from 1 to \<open>s.length\<close> and \<open>j\<close> from 1 to \<open>t.length\<close>.\<close>

definition lev_fill :: "'a list \<Rightarrow> 'a list \<Rightarrow> int list list \<Rightarrow> int list list" where
  "lev_fill s t d =
     fold (\<lambda>i d. fold (\<lambda>j d. lev_cell s t i j d) [1..<Suc (length t)] d) [1..<Suc (length s)] d"

definition levenshteinDistance :: "'a list \<Rightarrow> 'a list \<Rightarrow> int" where
  "levenshteinDistance s t =
     (if s = t then 0
      else if length s = 0 then int (length t)
      else if length t = 0 then int (length s)
      else lev_fill s t (lev_init_cols (length t) (lev_init_rows (length s))) ! length s ! length t)"

subsection \<open>What the distance is measured against\<close>

text \<open>
  One edit of a string: a character is inserted, deleted or replaced, at the head or (by
  the last rule) anywhere further right. \<open>transforms n a b\<close>: \<open>n\<close> edits, one after the
  other, lead from \<open>a\<close> to \<open>b\<close>.
\<close>

inductive edit_step :: "'a list \<Rightarrow> 'a list \<Rightarrow> bool" where
  ins: "edit_step xs (c # xs)"
| del: "edit_step (c # xs) xs"
| sub: "edit_step (c # xs) (d # xs)"
| ctx: "edit_step xs ys \<Longrightarrow> edit_step (z # xs) (z # ys)"

inductive transforms :: "nat \<Rightarrow> 'a list \<Rightarrow> 'a list \<Rightarrow> bool" where
  done0: "transforms 0 a a"
| more: "transforms n a b \<Longrightarrow> edit_step b c \<Longrightarrow> transforms (Suc n) a c"

text \<open>
  The textbook recursion, used in the proofs only: \<open>ed\<close> works from the heads of the two
  strings, \<open>edp s t i j\<close> is its value on the prefixes of lengths \<open>i\<close> and \<open>j\<close>, which is
  what cell \<open>d[i][j]\<close> of the matrix holds.
\<close>

definition neq_cost :: "'a \<Rightarrow> 'a \<Rightarrow> nat" where
  "neq_cost x y = (if x = y then 0 else 1)"

fun ed :: "'a list \<Rightarrow> 'a list \<Rightarrow> nat" where
  "ed [] ys = length ys"
| "ed xs [] = length xs"
| "ed (x # xs) (y # ys) =
     min (ed xs (y # ys) + 1) (min (ed (x # xs) ys + 1) (ed xs ys + neq_cost x y))"

definition edp :: "'a list \<Rightarrow> 'a list \<Rightarrow> nat \<Rightarrow> nat \<Rightarrow> int" where
  "edp s t i j = int (ed (take i s) (take j t))"

definition edp_row :: "'a list \<Rightarrow> 'a list \<Rightarrow> nat \<Rightarrow> nat \<Rightarrow> int list" where
  "edp_row s t i k = map (edp s t i) [0..<Suc k]"

definition edp_rows :: "'a list \<Rightarrow> 'a list \<Rightarrow> nat \<Rightarrow> int list list" where
  "edp_rows s t k =
     map (\<lambda>i. if i \<le> k then edp_row s t i (length t) else [int i]) [0..<Suc (length s)]"

section \<open>The tag library index: \<^verbatim>\<open>createTagLookup\<close>\<close>

text \<open>
  The tag dataset \<^verbatim>\<open>tagDataCsv\<close> is a constant of the module \<^verbatim>\<open>lib/tagData\<close>; it
  is an argument \<open>csv\<close> here. The function builds a map from normalized keys to the
  value in the target language (\<^verbatim>\<open>lookupMap\<close>) and the list of all keys in the order of
  their registration (\<^verbatim>\<open>validKeys\<close>), and returns a closure over both.
\<close>

datatype lang = SC | TC | EN

record tag_index =
  lookupMap :: "string \<rightharpoonup> string"
  validKeys :: "string list"

definition empty_index :: tag_index where
  "empty_index = \<lparr>lookupMap = Map.empty, validKeys = []\<rparr>"

text \<open>\<^verbatim>\<open>lookupMap.set(k, v); validKeys.push(k);\<close>\<close>

definition register :: "string \<Rightarrow> string \<Rightarrow> tag_index \<Rightarrow> tag_index" where
  "register k v idx =
     idx\<lparr>lookupMap := (lookupMap idx)(k \<mapsto> v), validKeys := validKeys idx @ [k]\<rparr>"

text \<open>
  The body of \<^verbatim>\<open>lines.forEach\<close>. The empty string is the falsy string of the tests
  \<^verbatim>\<open>if (tag)\<close>, \<^verbatim>\<open>if (definition)\<close>, \<^verbatim>\<open>if (targetValue)\<close>, \<^verbatim>\<open>if (en)\<close>,
  \<^verbatim>\<open>if (sc)\<close> and \<^verbatim>\<open>if (tc)\<close>. The reads \<open>parts[0]\<close>, \<open>parts[1]\<close> and \<open>parts[2]\<close> are
  in range in the branch that makes them.
\<close>

definition index_line :: "lang \<Rightarrow> string \<Rightarrow> tag_index \<Rightarrow> tag_index" where
  "index_line targetLang line idx =
     (let parts = split_on CHR '','' line in
      if length parts < 2 then idx
      else if length parts = 2 then
        (let tag = trim (parts ! 0); definition = trim (parts ! 1) in
         if tag \<noteq> [] then
           (let idx1 = register (toLowerCase tag) tag idx in
            if definition \<noteq> [] then register (toLowerCase definition) tag idx1 else idx1)
         else idx)
      else
        (let en = trim (parts ! 0); sc = trim (parts ! 1); tc = trim (parts ! 2);
             targetValue = (case targetLang of EN \<Rightarrow> en | SC \<Rightarrow> sc | TC \<Rightarrow> tc) in
         if targetValue \<noteq> [] then
           (let idx1 = (if en \<noteq> [] then register (toLowerCase en) targetValue idx else idx);
                idx2 = (if sc \<noteq> [] then register sc targetValue idx1 else idx1)
            in if tc \<noteq> [] then register tc targetValue idx2 else idx2)
         else idx))"

text \<open>\<^verbatim>\<open>tagDataCsv.split('\n').slice(1)\<close>, then the loop over the lines.\<close>

definition data_lines :: "string \<Rightarrow> string list" where
  "data_lines csv = drop 1 (split_on newline csv)"

definition build_index :: "lang \<Rightarrow> string \<Rightarrow> tag_index" where
  "build_index targetLang csv = fold (index_line targetLang) (data_lines csv) empty_index"

text \<open>
  The returned closure. \<^verbatim>\<open>minDistance\<close> starts at \<^verbatim>\<open>Infinity\<close>, which is \<open>None\<close>
  here; \<^verbatim>\<open>bestMatch\<close> starts at \<^verbatim>\<open>null\<close>.
\<close>

definition maxDistance_of :: "string \<Rightarrow> int" where
  "maxDistance_of normalizedInput =
     (if length normalizedInput < 4 then 0 else if length normalizedInput < 8 then 2 else 3)"

definition below_min :: "int \<Rightarrow> int option \<Rightarrow> bool" where
  "below_min dist minDistance = (case minDistance of None \<Rightarrow> True | Some m \<Rightarrow> dist < m)"

definition fuzzy_step ::
  "string \<Rightarrow> int \<Rightarrow> string \<Rightarrow> string option \<times> int option \<Rightarrow> string option \<times> int option" where
  "fuzzy_step normalizedInput maxDistance key acc =
     (if \<bar>int (length key) - int (length normalizedInput)\<bar> > maxDistance then acc
      else
        (let dist = levenshteinDistance normalizedInput key in
         if dist \<le> maxDistance \<and> below_min dist (snd acc) then (Some key, Some dist) else acc))"

definition fuzzy_scan :: "string \<Rightarrow> int \<Rightarrow> string list \<Rightarrow> string option \<times> int option" where
  "fuzzy_scan normalizedInput maxDistance keys =
     fold (fuzzy_step normalizedInput maxDistance) keys (None, None)"

definition lookup :: "tag_index \<Rightarrow> string \<Rightarrow> string option" where
  "lookup idx tagName =
     (if tagName = [] then None
      else
        (let normalizedInput = trim (toLowerCase tagName) in
         if lookupMap idx normalizedInput \<noteq> None then lookupMap idx normalizedInput
         else
           (case fst (fuzzy_scan normalizedInput (maxDistance_of normalizedInput) (validKeys idx)) of
              None \<Rightarrow> None
            | Some bestMatch \<Rightarrow> if bestMatch = [] then None else lookupMap idx bestMatch)))"

definition createTagLookup :: "string \<Rightarrow> lang \<Rightarrow> string \<Rightarrow> string option" where
  "createTagLookup csv targetLang = lookup (build_index targetLang csv)"

section \<open>The tag normalizer: \<^verbatim>\<open>normalizeTags\<close>\<close>

record GeneratedTag =
  name :: string
  score :: int

text \<open>
  The callback of \<^verbatim>\<open>tags.map\<close>; \<^verbatim>\<open>if (match)\<close> is false for \<^verbatim>\<open>null\<close> and for the
  empty string. The \<^verbatim>\<open>filter\<close> that follows drops the \<^verbatim>\<open>null\<close> entries.
\<close>

definition normalize_one :: "(string \<Rightarrow> string option) \<Rightarrow> GeneratedTag \<Rightarrow> GeneratedTag option" where
  "normalize_one lookup_fn tag =
     (case lookup_fn (name tag) of
        None \<Rightarrow> None
      | Some match \<Rightarrow> if match = [] then None else Some (tag\<lparr>name := match\<rparr>))"

text \<open>
  The last \<^verbatim>\<open>filter\<close>, with the set \<^verbatim>\<open>seen\<close> it updates while it runs.
\<close>

fun drop_seen :: "string set \<Rightarrow> GeneratedTag list \<Rightarrow> GeneratedTag list" where
  "drop_seen seen [] = []"
| "drop_seen seen (tag # tags) =
     (let duplicate = (name tag \<in> seen)
      in (if \<not> duplicate then [tag] else []) @ drop_seen (insert (name tag) seen) tags)"

definition normalizeTags :: "string \<Rightarrow> GeneratedTag list \<Rightarrow> lang \<Rightarrow> GeneratedTag list" where
  "normalizeTags csv tags targetLang =
     (let lookup_fn = createTagLookup csv targetLang;
          normalized = List.map_filter (normalize_one lookup_fn) tags
      in drop_seen {} normalized)"

section \<open>The description map of the user interface: \<^verbatim>\<open>useTagData\<close>\<close>

text \<open>
  A second pass over a tag dataset, made by the hook \<^verbatim>\<open>useTagData\<close> for the user
  interface: it maps a tag to its description and rebuilds the library text that goes
  into the prompt. The two header lines of the source are written in Chinese; the
  constants below stand for them.
\<close>

definition header_simple :: string where
  "header_simple = ''tag,definition''"

definition header_multilingual :: string where
  "header_multilingual = ''original,name,taiwan,note,description''"

record tag_data =
  tagLibrary :: string
  tagMap :: "string \<rightharpoonup> string"

record tag_data_acc =
  relevantLines :: "string list"
  descriptions :: "string \<rightharpoonup> string"

text \<open>\<^verbatim>\<open>line.trim().length > 0 && !line.trim().startsWith(',==')\<close>\<close>

definition is_data_line :: "string \<Rightarrow> bool" where
  "is_data_line line = (0 < length (trim line) \<and> \<not> prefix '',=='' (trim line))"

text \<open>\<^verbatim>\<open>if (v) map.set(v, description)\<close>\<close>

definition describe :: "string \<Rightarrow> string \<Rightarrow> (string \<rightharpoonup> string) \<Rightarrow> (string \<rightharpoonup> string)" where
  "describe v description m = (if v \<noteq> [] then m(v \<mapsto> description) else m)"

text \<open>The body of the loop over the lines (nothing in it throws, so the \<^verbatim>\<open>catch\<close> is dead).\<close>

definition useTagData_line :: "bool \<Rightarrow> string \<Rightarrow> tag_data_acc \<Rightarrow> tag_data_acc" where
  "useTagData_line isSimpleFormat line acc =
     (let trimmed = trim line in
      if 0 < length trimmed \<and> \<not> prefix '',=='' trimmed then
        (let values = split_on CHR '','' trimmed in
         if isSimpleFormat \<and> 2 \<le> length values then
           (let tag = trim (values ! 0); description = trim (values ! 1) in
            if tag \<noteq> [] then
              acc\<lparr>relevantLines := relevantLines acc @ [trimmed],
                  descriptions := (if description \<noteq> [] then (descriptions acc)(tag \<mapsto> description)
                                   else descriptions acc)\<rparr>
            else acc)
         else if 4 < length values then
           (let enName = trim (values ! 0); scName = trim (values ! 1); tcName = trim (values ! 2);
                description = trim (values ! 4) in
            acc\<lparr>relevantLines := relevantLines acc @ [trimmed],
                descriptions :=
                  (if description \<noteq> []
                   then describe tcName description
                          (describe scName description (describe enName description (descriptions acc)))
                   else descriptions acc)\<rparr>)
         else acc)
      else acc)"

fun join_lines :: "string list \<Rightarrow> string" where
  "join_lines [] = []"
| "join_lines [l] = l"
| "join_lines (l # ls) = l @ [newline] @ join_lines ls"

text \<open>\<open>None\<close> is \<^verbatim>\<open>null\<close>; the empty string is falsy as well.\<close>

definition useTagData :: "string option \<Rightarrow> tag_data" where
  "useTagData csvContent =
     (case csvContent of
        None \<Rightarrow> \<lparr>tagLibrary = [], tagMap = Map.empty\<rparr>
      | Some csv \<Rightarrow>
          if csv = [] then \<lparr>tagLibrary = [], tagMap = Map.empty\<rparr>
          else
            (let lines = split_on newline csv;
                 firstDataLine = find is_data_line (drop 1 lines);
                 isSimpleFormat =
                   (case firstDataLine of
                      None \<Rightarrow> False
                    | Some l \<Rightarrow> length (split_on CHR '','' l) = 2);
                 acc = fold (useTagData_line isSimpleFormat) (drop 1 lines)
                         \<lparr>relevantLines = [], descriptions = Map.empty\<rparr>;
                 header = (if isSimpleFormat then header_simple else header_multilingual)
             in \<lparr>tagLibrary = header @ [newline] @ join_lines (relevantLines acc),
                 tagMap = descriptions acc\<rparr>))"

section \<open>Notions used in the statements about the index, and example data\<close>

text \<open>
  \<open>index_ok\<close>: every registered key is a key of the map and conversely, and neither a key
  nor a value is the empty string.
\<close>

definition index_ok :: "tag_index \<Rightarrow> bool" where
  "index_ok idx \<longleftrightarrow>
     set (validKeys idx) = dom (lookupMap idx) \<and> [] \<notin> set (validKeys idx) \<and>
     (\<forall>k. lookupMap idx k \<noteq> Some [])"

text \<open>
  \<open>best_at n D keys i\<close>: the key at position \<open>i\<close> is within distance \<open>D\<close> of \<open>n\<close>, no key
  within that distance is nearer, and every earlier key within that distance is
  strictly farther. This is the key that ``has the smallest distance within the
  threshold, ties broken by the first key in registration order''.
\<close>

definition best_at :: "string \<Rightarrow> int \<Rightarrow> string list \<Rightarrow> nat \<Rightarrow> bool" where
  "best_at n D keys i \<longleftrightarrow>
     i < length keys \<and> levenshteinDistance n (keys ! i) \<le> D \<and>
     (\<forall>j<length keys. levenshteinDistance n (keys ! j) \<le> D \<longrightarrow>
         levenshteinDistance n (keys ! i) \<le> levenshteinDistance n (keys ! j)) \<and>
     (\<forall>j<i. levenshteinDistance n (keys ! j) \<le> D \<longrightarrow>
         levenshteinDistance n (keys ! i) < levenshteinDistance n (keys ! j))"

text \<open>
  A dataset in the two-column format, one with a five-column row whose description is
  empty, one that mixes rows of two and of five columns, and a list of raw tags.
\<close>

definition simple_csv :: string where
  "simple_csv =
     ''h,tag,definition'' @ [newline] @ ''Action,scene of action'' @ [newline] @ ''Cat,feline''"

definition no_description_csv :: string where
  "no_description_csv = ''en,sc,tc,note,desc'' @ [newline] @ ''Action,,,,''"

definition mixed_csv :: string where
  "mixed_csv =
     ''h'' @ [newline] @ ''Cat,feline'' @ [newline] @ ''Action,dongzuo,dongzuo2,,fight''"

definition example_tags :: "GeneratedTag list" where
  "example_tags =
     [\<lparr>name = ''actoin'', score = 90\<rparr>, \<lparr>name = ''dog'', score = 80\<rparr>,
      \<lparr>name = ''ACTION'', score = 70\<rparr>, \<lparr>name = ''feline'', score = 60\<rparr>]"

section \<open>Thrown values\<close>

text \<open>
  What an awaited call may throw: a \<^verbatim>\<open>DOMException\<close> with its name and message (the
  cancellation of a request is the one named \<open>AbortError\<close>), a \<^verbatim>\<open>TypeError\<close> (a
  failed \<^verbatim>\<open>fetch\<close>, a property read on \<^verbatim>\<open>null\<close>), a \<^verbatim>\<open>SyntaxError\<close>, a plain
  \<^verbatim>\<open>Error\<close>, and the value \<^verbatim>\<open>undefined\<close>. All but the last are instances of
  \<^verbatim>\<open>Error\<close> and carry a message.
\<close>

datatype js_error =
    DOMException string string
  | TypeError string
  | SyntaxError string
  | Error string
  | Thrown_undefined

fun message :: "js_error \<Rightarrow> string" where
  "message (DOMException nm msg) = msg"
| "message (TypeError msg) = msg"
| "message (SyntaxError msg) = msg"
| "message (Error msg) = msg"
| "message Thrown_undefined = []"

text \<open>\<^verbatim>\<open>err instanceof DOMException && err.name === 'AbortError'\<close>\<close>

fun is_abort :: "js_error \<Rightarrow> bool" where
  "is_abort (DOMException nm msg) = (nm = ''AbortError'')"
| "is_abort e = False"

text \<open>\<^verbatim>\<open>new DOMException('Aborted', 'AbortError')\<close>\<close>

definition AbortError :: js_error where
  "AbortError = DOMException ''AbortError'' ''Aborted''"

section \<open>The retry wrapper: \<^verbatim>\<open>withRetry\<close>\<close>

text \<open>
  The operation \<open>fn\<close> is a function of an explicit state \<open>'s\<close> (the world the
  operation talks to), so that each attempt may end differently. The wrapper's own
  effects are recorded in a log: one \<open>Attempt\<close> per call of \<open>fn\<close>, one \<open>Wait d\<close> per
  delay of \<open>d\<close> milliseconds.
\<close>

datatype effect = Attempt | Wait int

definition isAuthError :: "string \<Rightarrow> bool" where
  "isAuthError errorMessage \<longleftrightarrow>
     str_includes errorMessage ''API key'' \<or> str_includes errorMessage ''401''
     \<or> str_includes errorMessage ''403''"

definition isBadRequest :: "string \<Rightarrow> bool" where
  "isBadRequest errorMessage \<longleftrightarrow>
     str_includes errorMessage ''400'' \<and> \<not> str_includes errorMessage ''safety''"

text \<open>
  The loop \<^verbatim>\<open>for (let attempt = 0; attempt <= retries; attempt++)\<close>, entered at
  \<open>attempt\<close> with \<open>lastError\<close> as it stands. Reading \<^verbatim>\<open>error.message\<close> of the thrown
  value \<^verbatim>\<open>undefined\<close> is itself a \<^verbatim>\<open>TypeError\<close>, which leaves the function.
\<close>

function withRetry_from ::
  "('s \<Rightarrow> (js_error + 'a) \<times> 's) \<Rightarrow> int \<Rightarrow> int \<Rightarrow> int \<Rightarrow> int \<Rightarrow> js_error \<Rightarrow> 's \<Rightarrow> effect list
     \<Rightarrow> (js_error + 'a) \<times> 's \<times> effect list" where
  "withRetry_from fn retries baseDelay backoffFactor attempt lastError st log =
     (if attempt \<le> retries then
        (case fn st of
           (Inr v, st') \<Rightarrow> (Inr v, st', log @ [Attempt])
         | (Inl error, st') \<Rightarrow>
             if error = Thrown_undefined
             then (Inl (TypeError ''Cannot read properties of undefined''), st', log @ [Attempt])
             else if isAuthError (message error) \<or> isBadRequest (message error)
             then (Inl error, st', log @ [Attempt])
             else if attempt = retries
             then (Inl error, st', log @ [Attempt])
             else withRetry_from fn retries baseDelay backoffFactor (attempt + 1) error st'
                    (log @ [Attempt, Wait (baseDelay * backoffFactor ^ nat attempt)]))
      else (Inl lastError, st, log))"
  by pat_completeness auto
termination
  by (relation "measure (\<lambda>(fn, retries, baseDelay, backoffFactor, attempt, lastError, st, log).
        nat (retries + 1 - attempt))") auto

declare withRetry_from.simps [simp del]

definition withRetry ::
  "('s \<Rightarrow> (js_error + 'a) \<times> 's) \<Rightarrow> int \<Rightarrow> int \<Rightarrow> int \<Rightarrow> 's \<Rightarrow> (js_error + 'a) \<times> 's \<times> effect list" where
  "withRetry fn retries baseDelay backoffFactor st =
     withRetry_from fn retries baseDelay backoffFactor 0 Thrown_undefined st []"

text \<open>The defaults of the parameters: \<^verbatim>\<open>retries = 3, baseDelay = 1000, backoffFactor = 2\<close>.\<close>

definition withRetry_default ::
  "('s \<Rightarrow> (js_error + 'a) \<times> 's) \<Rightarrow> 's \<Rightarrow> (js_error + 'a) \<times> 's \<times> effect list" where
  "withRetry_default fn st = withRetry fn 3 1000 2 st"

section \<open>The providers\<close>

subsection \<open>Settings, requests and results\<close>

datatype description_style = Style_default | Style_emotion | Style_plot | Style_teen

text \<open>
  \<^verbatim>\<open>useThinking\<close> is optional in the source (absent reads as false); \<^verbatim>\<open>tagLanguage\<close>
  is read as \<^verbatim>\<open>settings.tagLanguage || 'sc'\<close>, so it may be absent as well.
\<close>

record GenerationSettings =
  tagsCount :: int
  descriptionStyle :: description_style
  useThinking :: bool
  tagLanguage :: "lang option"

definition language_of :: "GenerationSettings \<Rightarrow> lang" where
  "language_of settings = (case tagLanguage settings of None \<Rightarrow> SC | Some l \<Rightarrow> l)"

text \<open>
  What a provider sends: the model, the reasoning budget, the image, and the values the
  prompt template interpolates (the instruction for the description style, the tag
  count, the language constraint, the feedback on pinned and excluded tags, and the
  text of the tag library). The fixed text of the template is left out. A list of
  pinned or excluded tags that is absent reads like an empty one.
\<close>

record request =
  req_model :: string
  req_thinkingBudget :: "nat option"
  req_image :: string
  req_mimeType :: string
  req_style :: description_style
  req_tagsCount :: int
  req_lang :: lang
  req_pinned :: "string list"
  req_excluded :: "string list"
  req_tagLibraryCsv :: string

definition feedback_list :: "string list option \<Rightarrow> string list" where
  "feedback_list tags = (case tags of None \<Rightarrow> [] | Some ts \<Rightarrow> ts)"

definition gemini_request ::
  "string \<Rightarrow> string \<Rightarrow> string \<Rightarrow> GenerationSettings \<Rightarrow> string list option \<Rightarrow> string list option
     \<Rightarrow> request" where
  "gemini_request imageBase64 mimeType tagLibraryCsv settings pinnedTags excludedTags =
     \<lparr>req_model = (if useThinking settings then ''gemini-3-pro-preview'' else ''gemini-2.5-flash''),
      req_thinkingBudget = (if useThinking settings then Some 32768 else None),
      req_image = imageBase64,
      req_mimeType = mimeType,
      req_style = descriptionStyle settings,
      req_tagsCount = tagsCount settings,
      req_lang = language_of settings,
      req_pinned = feedback_list pinnedTags,
      req_excluded = feedback_list excludedTags,
      req_tagLibraryCsv = tagLibraryCsv\<rparr>"

text \<open>
  The parsed response: \<open>None\<close> for \<open>pj_tags\<close> when the field is not an array; an empty
  description stands for a missing one as well (both are falsy).
\<close>

record parsed_json =
  pj_description :: string
  pj_tags :: "GeneratedTag list option"

record GeneratedTagsResult =
  description :: string
  tags :: "GeneratedTag list"

subsection \<open>The cloud-native provider: \<^verbatim>\<open>GeminiProvider.generateTags\<close>\<close>

text \<open>
  The state of the world for one call: how many requests went out, and whether the
  cancellation signal has fired. The backend \<open>ai\<close> answers the \<open>k\<close>-th request with
  a text or an error, and tells whether the signal fired while the request was in
  flight (a signal that has fired stays so).
\<close>

record net_state =
  requests :: nat
  signal_aborted :: bool

definition gemini_performGeneration ::
  "(nat \<Rightarrow> request \<Rightarrow> (js_error + string) \<times> bool) \<Rightarrow> request \<Rightarrow> net_state
     \<Rightarrow> (js_error + string) \<times> net_state" where
  "gemini_performGeneration ai req st =
     (if signal_aborted st then (Inl AbortError, st)
      else
        (case ai (requests st) req of
           (response, fired) \<Rightarrow>
             (let st' = \<lparr>requests = requests st + 1, signal_aborted = fired\<rparr> in
              case response of
                Inl e \<Rightarrow> (Inl e, st')
              | Inr text \<Rightarrow> if signal_aborted st' then (Inl AbortError, st') else (Inr text, st'))))"

text \<open>
  The three messages of the \<^verbatim>\<open>catch\<close> block of the provider are written in Chinese
  in the source; the constants stand for them.
\<close>

definition msg_auth_failed :: string where
  "msg_auth_failed = ''Authentication failed: the API key is invalid or missing.''"

definition msg_rate_limited :: string where
  "msg_rate_limited = ''Rate limit exceeded: still failing after the retries.''"

definition msg_blocked :: string where
  "msg_blocked = ''Content blocked: the request was stopped by the safety filter.''"

definition gemini_rethrow :: "js_error \<Rightarrow> js_error" where
  "gemini_rethrow error =
     (if is_abort error then error
      else if error = Thrown_undefined then error
      else if str_includes (message error) ''API key'' then Error msg_auth_failed
      else if str_includes (message error) ''429'' then Error msg_rate_limited
      else if str_includes (message error) ''blocked'' then Error msg_blocked
      else error)"

text \<open>
  The part of the \<^verbatim>\<open>try\<close> block after \<^verbatim>\<open>withRetry\<close>. \<open>parse\<close> stands for
  \<^verbatim>\<open>JSON.parse(cleanJsonOutput(rawText))\<close>, \<open>None\<close> when it throws. The last step
  calls \<^verbatim>\<open>normalizeTags\<close>, which reads the dataset \<open>csv\<close> of the module
  \<^verbatim>\<open>lib/tagData\<close>.
\<close>

definition gemini_postprocess ::
  "string \<Rightarrow> (string \<Rightarrow> parsed_json option) \<Rightarrow> GenerationSettings \<Rightarrow> string
     \<Rightarrow> js_error + GeneratedTagsResult" where
  "gemini_postprocess csv parse settings rawText =
     (if rawText = [] then Inl (Error ''AI returned an empty response.'')
      else
        (case parse rawText of
           None \<Rightarrow> Inl (SyntaxError ''Failed to parse AI response as JSON.'')
         | Some parsedResult \<Rightarrow>
             (case pj_tags parsedResult of
                None \<Rightarrow> Inl (Error ''Invalid JSON structure: missing core fields.'')
              | Some raw_tags \<Rightarrow>
                  if pj_description parsedResult = []
                  then Inl (Error ''Invalid JSON structure: missing core fields.'')
                  else Inr \<lparr>description = pj_description parsedResult,
                            tags = normalizeTags csv raw_tags (language_of settings)\<rparr>)))"

definition gemini_generateTags ::
  "string \<Rightarrow> (nat \<Rightarrow> request \<Rightarrow> (js_error + string) \<times> bool) \<Rightarrow> (string \<Rightarrow> parsed_json option)
     \<Rightarrow> string \<Rightarrow> string \<Rightarrow> string \<Rightarrow> GenerationSettings \<Rightarrow> string list option \<Rightarrow> string list option
     \<Rightarrow> net_state \<Rightarrow> (js_error + GeneratedTagsResult) \<times> net_state \<times> effect list" where
  "gemini_generateTags csv ai parse imageBase64 mimeType tagLibraryCsv settings pinnedTags excludedTags st =
     (case withRetry_default
             (gemini_performGeneration ai
                (gemini_request imageBase64 mimeType tagLibraryCsv settings pinnedTags excludedTags)) st of
        (Inl error, st', log) \<Rightarrow> (Inl (gemini_rethrow error), st', log)
      | (Inr rawText, st', log) \<Rightarrow>
          (case gemini_postprocess csv parse settings rawText of
             Inl error \<Rightarrow> (Inl (gemini_rethrow error), st', log)
           | Inr res \<Rightarrow> (Inr res, st', log)))"

subsection \<open>The REST provider: the errors of \<^verbatim>\<open>performGeneration\<close>\<close>

text \<open>Decimal digits of a status code, for the template strings.\<close>

function show_nat :: "nat \<Rightarrow> string" where
  "show_nat n =
     (if n < 10 then [char_of (48 + n)] else show_nat (n div 10) @ [char_of (48 + n mod 10)])"
  by pat_completeness auto
termination
  by (relation "measure id") auto

text \<open>
  The answer of \<^verbatim>\<open>fetch\<close>: its status, the message the source extracts from the body
  of an error response, and the content of the first choice of a good one.
\<close>

record http_response =
  status :: nat
  errorMessage :: string
  content :: string

definition response_ok :: "http_response \<Rightarrow> bool" where
  "response_ok r \<longleftrightarrow> 200 \<le> status r \<and> status r \<le> 299"

definition openai_performGeneration ::
  "(nat \<Rightarrow> request \<Rightarrow> js_error + http_response) \<Rightarrow> request \<Rightarrow> nat \<Rightarrow> (js_error + string) \<times> nat" where
  "openai_performGeneration fetch req n =
     (case fetch n req of
        Inl e \<Rightarrow> (Inl e, Suc n)
      | Inr response \<Rightarrow>
          if \<not> response_ok response then
            (if status response = 429
             then (Inl (Error (''Rate limit exceeded (429): '' @ errorMessage response)), Suc n)
             else if 500 \<le> status response
             then (Inl (Error (''Server error ('' @ show_nat (status response) @ ''): ''
                               @ errorMessage response)), Suc n)
             else if status response = 401 \<or> status response = 403
             then (Inl (Error (''Auth failed: '' @ errorMessage response)), Suc n)
             else (Inl (Error (''API Request failed ('' @ show_nat (status response) @ ''): ''
                               @ errorMessage response)), Suc n))
          else (Inr (trim (content response)), Suc n))"

subsection \<open>The REST provider: \<^verbatim>\<open>OpenAICompatibleProvider.generateTags\<close>\<close>

text \<open>
  The request of the REST provider: the model of its configuration, no reasoning
  budget, the image as a data URL (the MIME type is not used), and the same values of
  the prompt template.
\<close>

definition openai_request ::
  "string \<Rightarrow> string \<Rightarrow> string \<Rightarrow> GenerationSettings \<Rightarrow> string list option \<Rightarrow> string list option
     \<Rightarrow> request" where
  "openai_request model imageBase64 tagLibraryCsv settings pinnedTags excludedTags =
     \<lparr>req_model = model,
      req_thinkingBudget = None,
      req_image = imageBase64,
      req_mimeType = [],
      req_style = descriptionStyle settings,
      req_tagsCount = tagsCount settings,
      req_lang = language_of settings,
      req_pinned = feedback_list pinnedTags,
      req_excluded = feedback_list excludedTags,
      req_tagLibraryCsv = tagLibraryCsv\<rparr>"

text \<open>
  The two messages of the \<^verbatim>\<open>catch\<close> block of the REST provider are written in
  Chinese in the source; the constants stand for them.
\<close>

definition msg_auth_invalid :: string where
  "msg_auth_invalid = ''Authentication failed: the API key is invalid.''"

definition msg_rate_retried :: string where
  "msg_rate_retried = ''Rate limit exceeded: still failing after several retries.''"

definition openai_rethrow :: "js_error \<Rightarrow> js_error" where
  "openai_rethrow error =
     (if is_abort error then error
      else if error = Thrown_undefined then error
      else if str_includes (message error) ''Auth failed'' then Error msg_auth_invalid
      else if str_includes (message error) ''Rate limit'' then Error msg_rate_retried
      else error)"

definition openai_postprocess ::
  "string \<Rightarrow> (string \<Rightarrow> parsed_json option) \<Rightarrow> GenerationSettings \<Rightarrow> string
     \<Rightarrow> js_error + GeneratedTagsResult" where
  "openai_postprocess csv parse settings rawText =
     (if rawText = [] then Inl (Error ''Model returned an empty response.'')
      else
        (case parse rawText of
           None \<Rightarrow> Inl (Error ''Failed to parse valid JSON from model response.'')
         | Some parsedResult \<Rightarrow>
             (case pj_tags parsedResult of
                None \<Rightarrow> Inl (Error ''Invalid JSON structure.'')
              | Some raw_tags \<Rightarrow>
                  if pj_description parsedResult = []
                  then Inl (Error ''Invalid JSON structure.'')
                  else Inr \<lparr>description = pj_description parsedResult,
                            tags = normalizeTags csv raw_tags (language_of settings)\<rparr>)))"

definition openai_generateTags ::
  "string \<Rightarrow> (nat \<Rightarrow> request \<Rightarrow> js_error + http_response) \<Rightarrow> (string \<Rightarrow> parsed_json option)
     \<Rightarrow> string \<Rightarrow> string \<Rightarrow> string \<Rightarrow> GenerationSettings \<Rightarrow> string list option \<Rightarrow> string list option
     \<Rightarrow> nat \<Rightarrow> (js_error + GeneratedTagsResult) \<times> nat \<times> effect list" where
  "openai_generateTags csv fetch parse model imageBase64 tagLibraryCsv settings pinnedTags excludedTags n =
     (case withRetry_default
             (openai_performGeneration fetch
                (openai_request model imageBase64 tagLibraryCsv settings pinnedTags excludedTags)) n of
        (Inl error, n', log) \<Rightarrow> (Inl (openai_rethrow error), n', log)
      | (Inr rawText, n', log) \<Rightarrow>
          (case openai_postprocess csv parse settings rawText of
             Inl error \<Rightarrow> (Inl (openai_rethrow error), n', log)
           | Inr res \<Rightarrow> (Inr res, n', log)))"

text \<open>Example data: settings, a backend that answers any request alike, and a parser.\<close>

definition example_settings :: GenerationSettings where
  "example_settings =
     \<lparr>tagsCount = 5, descriptionStyle = Style_default, useThinking = False,
      tagLanguage = Some EN\<rparr>"

definition constant_backend :: "nat \<Rightarrow> request \<Rightarrow> (js_error + string) \<times> bool" where
  "constant_backend k req = (Inr ''{}'', False)"

definition example_parse :: "string \<Rightarrow> parsed_json option" where
  "example_parse rawText = Some \<lparr>pj_description = ''a cover'', pj_tags = Some example_tags\<rparr>"

section \<open>The orchestrator: \<^verbatim>\<open>generateTags\<close> of \<^verbatim>\<open>services/llmService\<close>\<close>

datatype LlmProvider = gemini | openai | grok | ollama | lmstudio | custom

fun provider_name :: "LlmProvider \<Rightarrow> string" where
  "provider_name gemini = ''gemini''"
| "provider_name openai = ''openai''"
| "provider_name grok = ''grok''"
| "provider_name ollama = ''ollama''"
| "provider_name lmstudio = ''lmstudio''"
| "provider_name custom = ''custom''"

text \<open>
  The configuration as \<^verbatim>\<open>getLlmConfig\<close> returns it. An optional field is an option;
  \<^verbatim>\<open>enableFailover\<close> is only ever tested for truth, so absent reads as false.
\<close>

record LlmConfig =
  provider :: LlmProvider
  apiKey :: "string option"
  baseUrl :: "string option"
  modelName :: "string option"
  enableFailover :: bool
  failoverProvider :: "LlmProvider option"

text \<open>The credentials stored for one provider (\<^verbatim>\<open>getStoredCredentials\<close>).\<close>

record credentials =
  cred_apiKey :: "string option"
  cred_baseUrl :: "string option"
  cred_modelName :: "string option"
  cred_backupApiKey :: "string option"

text \<open>The \<^verbatim>\<open>Partial<LlmConfig>\<close> that \<^verbatim>\<open>createProvider\<close> takes as its override.\<close>

record override_config =
  ov_apiKey :: "string option"
  ov_baseUrl :: "string option"
  ov_modelName :: "string option"

text \<open>
  What the orchestrator reads from outside: the configuration, the stored credentials
  and the key of the environment (\<^verbatim>\<open>process.env.API_KEY\<close>).
\<close>

record environment =
  llmConfig :: LlmConfig
  storedCredentials :: "LlmProvider \<Rightarrow> credentials"
  env_API_KEY :: "string option"

text \<open>\<^verbatim>\<open>a || b\<close> on optional strings: the empty string is falsy.\<close>

definition truthy :: "string option \<Rightarrow> bool" where
  "truthy a \<longleftrightarrow> (case a of None \<Rightarrow> False | Some s \<Rightarrow> s \<noteq> [])"

definition or_else :: "string option \<Rightarrow> string option \<Rightarrow> string option" where
  "or_else a b = (if truthy a then a else b)"

definition or_default :: "string option \<Rightarrow> string \<Rightarrow> string" where
  "or_default a d = (case a of None \<Rightarrow> d | Some s \<Rightarrow> if s \<noteq> [] then s else d)"

text \<open>A provider object, by the values its constructor keeps.\<close>

datatype provider_instance =
    GeminiProvider string
  | OpenAICompatibleProvider string "string option" string

text \<open>The two constructors, each with the check it makes.\<close>

definition new_GeminiProvider :: "environment \<Rightarrow> string option \<Rightarrow> js_error + provider_instance" where
  "new_GeminiProvider env key =
     (case or_else key (env_API_KEY env) of
        None \<Rightarrow> Inl (Error ''Gemini API key is not provided in settings and not found in the environment.'')
      | Some k \<Rightarrow>
          if k = []
          then Inl (Error ''Gemini API key is not provided in settings and not found in the environment.'')
          else Inr (GeminiProvider k))"

definition new_OpenAICompatibleProvider ::
  "string \<Rightarrow> string option \<Rightarrow> string \<Rightarrow> js_error + provider_instance" where
  "new_OpenAICompatibleProvider url key model =
     (if url = [] then Inl (Error ''Base URL is required for OpenAI-compatible provider.'')
      else Inr (OpenAICompatibleProvider url key model))"

definition createProvider ::
  "environment \<Rightarrow> LlmProvider \<Rightarrow> override_config \<Rightarrow> js_error + provider_instance" where
  "createProvider env providerType overrideConfig =
     (let storedCreds = storedCredentials env providerType;
          key = or_else (ov_apiKey overrideConfig) (cred_apiKey storedCreds);
          url = or_else (ov_baseUrl overrideConfig) (cred_baseUrl storedCreds);
          model = or_else (ov_modelName overrideConfig) (cred_modelName storedCreds)
      in case providerType of
           openai \<Rightarrow>
             if \<not> truthy key then Inl (Error ''OpenAI provider requires an API Key.'')
             else new_OpenAICompatibleProvider (or_default url ''https://api.openai.com/v1'') key
                    (or_default model ''gpt-4o'')
         | grok \<Rightarrow>
             if \<not> truthy key then Inl (Error ''Grok provider requires an API Key.'')
             else new_OpenAICompatibleProvider (or_default url ''https://api.x.ai/v1'') key
                    (or_default model ''grok-beta'')
         | ollama \<Rightarrow>
             new_OpenAICompatibleProvider (or_default url ''http://localhost:11434/v1'') key
               (or_default model ''llava'')
         | lmstudio \<Rightarrow>
             new_OpenAICompatibleProvider (or_default url ''http://localhost:1234/v1'') key
               (or_default model ''llava'')
         | custom \<Rightarrow>
             if \<not> truthy url then Inl (Error ''Custom Endpoint provider requires a Base URL.'')
             else new_OpenAICompatibleProvider (or_default url []) key (or_default model ''llava'')
         | gemini \<Rightarrow> new_GeminiProvider env key)"

text \<open>
  \<^verbatim>\<open>ensureProviderIsActive\<close>, with the module variable \<^verbatim>\<open>activeProvider\<close> as a
  state: the provider in use and the new value of the variable, or what
  \<^verbatim>\<open>createProvider\<close> threw.
\<close>

definition config_override :: "LlmConfig \<Rightarrow> override_config" where
  "config_override config =
     \<lparr>ov_apiKey = apiKey config, ov_baseUrl = baseUrl config, ov_modelName = modelName config\<rparr>"

definition ensureProviderIsActive ::
  "environment \<Rightarrow> provider_instance option \<Rightarrow> js_error + provider_instance" where
  "ensureProviderIsActive env activeProvider =
     (case activeProvider of
        Some p \<Rightarrow> Inr p
      | None \<Rightarrow> createProvider env (provider (llmConfig env)) (config_override (llmConfig env)))"

text \<open>The override for the backup: the dedicated backup key, for the cloud-native backup only.\<close>

definition failoverConfig :: "environment \<Rightarrow> LlmProvider \<Rightarrow> override_config" where
  "failoverConfig env fp =
     \<lparr>ov_apiKey =
        (if fp = gemini \<and> truthy (cred_backupApiKey (storedCredentials env gemini))
         then cred_backupApiKey (storedCredentials env gemini) else None),
      ov_baseUrl = None, ov_modelName = None\<rparr>"

text \<open>
  The two messages the orchestrator builds are written in Chinese in the source; the
  functions below stand for them. A thrown value that is not an \<^verbatim>\<open>Error\<close> is
  reported as \<open>Unknown\<close>.
\<close>

definition message_or_unknown :: "js_error \<Rightarrow> string" where
  "message_or_unknown e = (if e = Thrown_undefined then ''Unknown'' else message e)"

definition combined_message :: "LlmProvider \<Rightarrow> js_error \<Rightarrow> LlmProvider \<Rightarrow> js_error \<Rightarrow> string" where
  "combined_message p err fp failoverErr =
     ''Primary service ('' @ provider_name p @ '') failed: '' @ message_or_unknown err @ ''. ''
     @ [newline] @ ''Backup service ('' @ provider_name fp @ '') also failed: ''
     @ message_or_unknown failoverErr"

definition msg_cannot_connect :: string where
  "msg_cannot_connect = ''Cannot connect to the AI service. Check the server, the address and CORS.''"

fun is_TypeError :: "js_error \<Rightarrow> bool" where
  "is_TypeError (TypeError msg) = True"
| "is_TypeError e = False"

record 'r GenerationResponse =
  result :: 'r
  usedFailover :: bool
  providerName :: LlmProvider

text \<open>
  The outcome of the orchestrated call, with the new value of \<^verbatim>\<open>activeProvider\<close> and
  the provider objects whose \<^verbatim>\<open>generateTags\<close> was invoked, in order. \<open>call k p\<close> is what
  the \<open>k\<close>-th invocation yields when it is made on the provider object \<open>p\<close>.
\<close>

record 'r orchestration =
  outcome :: "js_error + 'r GenerationResponse"
  activeProvider_after :: "provider_instance option"
  invoked :: "provider_instance list"

definition failover ::
  "environment \<Rightarrow> (nat \<Rightarrow> provider_instance \<Rightarrow> js_error + 'r) \<Rightarrow> js_error \<Rightarrow> provider_instance option
     \<Rightarrow> provider_instance list \<Rightarrow> 'r orchestration" where
  "failover env call err active called =
     (let config = llmConfig env in
      if is_abort err then
        \<lparr>outcome = Inl err, activeProvider_after = active, invoked = called\<rparr>
      else
        (case (if enableFailover config then failoverProvider config else None) of
           Some fp \<Rightarrow>
             (case createProvider env fp (failoverConfig env fp) of
                Inl failoverErr \<Rightarrow>
                  \<lparr>outcome =
                     (if is_abort failoverErr then Inl failoverErr
                      else Inl (Error (combined_message (provider config) err fp failoverErr))),
                   activeProvider_after = active, invoked = called\<rparr>
              | Inr backup \<Rightarrow>
                  (case call (length called) backup of
                     Inr r \<Rightarrow>
                       \<lparr>outcome = Inr \<lparr>result = r, usedFailover = True, providerName = fp\<rparr>,
                        activeProvider_after = active, invoked = called @ [backup]\<rparr>
                   | Inl failoverErr \<Rightarrow>
                       \<lparr>outcome =
                          (if is_abort failoverErr then Inl failoverErr
                           else Inl (Error (combined_message (provider config) err fp failoverErr))),
                        activeProvider_after = active, invoked = called @ [backup]\<rparr>))
         | None \<Rightarrow>
             \<lparr>outcome = (if is_TypeError err then Inl (Error msg_cannot_connect) else Inl err),
              activeProvider_after = active, invoked = called\<rparr>))"

definition generateTags ::
  "environment \<Rightarrow> (nat \<Rightarrow> provider_instance \<Rightarrow> js_error + 'r) \<Rightarrow> provider_instance option
     \<Rightarrow> 'r orchestration" where
  "generateTags env call activeProvider =
     (let config = llmConfig env in
      case ensureProviderIsActive env activeProvider of
        Inl err \<Rightarrow> failover env call err activeProvider []
      | Inr p \<Rightarrow>
          (case call 0 p of
             Inr r \<Rightarrow>
               \<lparr>outcome = Inr \<lparr>result = r, usedFailover = False, providerName = provider config\<rparr>,
                activeProvider_after = Some p, invoked = [p]\<rparr>
           | Inl err \<Rightarrow> failover env call err (Some p) [p]))"

text \<open>
  Example data: the cloud-native provider as the primary and the hosted REST provider as
  the backup, first with no credentials stored for the backup, then with a key.
\<close>

definition no_credentials :: credentials where
  "no_credentials =
     \<lparr>cred_apiKey = None, cred_baseUrl = None, cred_modelName = None, cred_backupApiKey = None\<rparr>"

definition backup_without_key :: environment where
  "backup_without_key =
     \<lparr>llmConfig = \<lparr>provider = gemini, apiKey = Some ''k'', baseUrl = None, modelName = None,
                    enableFailover = True, failoverProvider = Some openai\<rparr>,
      storedCredentials = (\<lambda>p. no_credentials),
      env_API_KEY = None\<rparr>"

definition backup_with_key :: environment where
  "backup_with_key =
     backup_without_key
       \<lparr>storedCredentials := (\<lambda>p. if p = openai then no_credentials\<lparr>cred_apiKey := Some ''sk''\<rparr>
                                    else no_credentials)\<rparr>"

definition primary_fails :: "nat \<Rightarrow> provider_instance \<Rightarrow> js_error + nat" where
  "primary_fails k p = (if k = 0 then Inl (Error ''boom'') else Inr 7)"

section \<open>The batch controller: \<^verbatim>\<open>useBatchGenerator\<close>\<close>

datatype BatchItemStatus = pending | processing | completed | error

datatype ToastType = Toast_success | Toast_error | Toast_info

text \<open>
  A batch item; \<open>'r\<close> is the type of a generation result. The fields \<^verbatim>\<open>id\<close>,
  \<^verbatim>\<open>status\<close>, \<^verbatim>\<open>result\<close> and \<^verbatim>\<open>error\<close> of the source carry the prefix \<open>item_\<close>.
\<close>

record 'r BatchItem =
  item_id :: string
  item_base64 :: string
  item_status :: BatchItemStatus
  item_result :: "'r option"
  item_error :: "string option"

text \<open>
  The state of the hook: its four React states, the reference to the abort controller
  (\<open>None\<close> for \<^verbatim>\<open>null\<close>, otherwise whether the signal of the controller has fired), and
  the calls it has made to \<^verbatim>\<open>onToast\<close> and \<^verbatim>\<open>onItemSuccess\<close>.
\<close>

record 'r batch_state =
  batchItems :: "'r BatchItem list"
  activeBatchItemId :: "string option"
  batchSummary :: "(nat \<times> nat) option"
  isProcessing :: bool
  abortControllerRef :: "bool option"
  toasts :: "(string \<times> ToastType) list"
  itemSuccesses :: "('r \<times> string) list"

text \<open>\<^verbatim>\<open>setBatchItems(prev => prev.map(i => i.id === item.id ? f(i) : i))\<close>\<close>

definition update_item ::
  "string \<Rightarrow> ('r BatchItem \<Rightarrow> 'r BatchItem) \<Rightarrow> 'r batch_state \<Rightarrow> 'r batch_state" where
  "update_item ident f s =
     s\<lparr>batchItems := map (\<lambda>i. if item_id i = ident then f i else i) (batchItems s)\<rparr>"

text \<open>
  What may happen to the hook while it awaits the orchestrator: nothing, the user
  presses stop (\<^verbatim>\<open>stopGeneration\<close>), or the component unmounts (the cleanup of the
  effect). The two messages are written in Chinese in the source.
\<close>

datatype interference = Quiet | Stop_pressed | Unmounted

definition msg_batch_stopped :: string where
  "msg_batch_stopped = ''Batch generation stopped''"

definition stopGeneration :: "'r batch_state \<Rightarrow> 'r batch_state" where
  "stopGeneration s =
     (case abortControllerRef s of
        None \<Rightarrow> s
      | Some fired \<Rightarrow>
          s\<lparr>abortControllerRef := None, isProcessing := False,
            toasts := toasts s @ [(msg_batch_stopped, Toast_info)]\<rparr>)"

definition unmount :: "'r batch_state \<Rightarrow> 'r batch_state" where
  "unmount s =
     (case abortControllerRef s of
        None \<Rightarrow> s
      | Some fired \<Rightarrow> s\<lparr>abortControllerRef := Some True\<rparr>)"

fun interfere :: "interference \<Rightarrow> 'r batch_state \<Rightarrow> 'r batch_state" where
  "interfere Quiet s = s"
| "interfere Stop_pressed s = stopGeneration s"
| "interfere Unmounted s = unmount s"

text \<open>\<^verbatim>\<open>err instanceof Error ? err.message : 'Unknown error'\<close>\<close>

definition message_or_unknown_error :: "js_error \<Rightarrow> string" where
  "message_or_unknown_error e = (if e = Thrown_undefined then ''Unknown error'' else message e)"

definition msg_null_signal :: string where
  "msg_null_signal = ''Cannot read properties of null (reading signal)''"

text \<open>
  The loop over the snapshot of the items, with the two counters. \<open>world item\<close> is what
  the orchestrator yields for \<open>item\<close> and what happens to the hook meanwhile. The last
  component of the result tells whether the loop was left by a \<^verbatim>\<open>break\<close>. When the
  reference is \<^verbatim>\<open>null\<close>, the argument \<^verbatim>\<open>abortControllerRef.current.signal\<close> of the
  call throws a \<^verbatim>\<open>TypeError\<close> inside the \<^verbatim>\<open>try\<close>, and the orchestrator is not called.
\<close>

fun batch_loop ::
  "('r BatchItem \<Rightarrow> (js_error + 'r) \<times> interference) \<Rightarrow> 'r BatchItem list
     \<Rightarrow> 'r batch_state \<times> nat \<times> nat \<Rightarrow> 'r batch_state \<times> nat \<times> nat \<times> bool" where
  "batch_loop world [] (s, completedCount, failedCount) = (s, completedCount, failedCount, False)"
| "batch_loop world (item # rest) (s, completedCount, failedCount) =
     (if abortControllerRef s = Some True then (s, completedCount, failedCount, True)
      else if item_status item = completed
      then batch_loop world rest (s, completedCount + 1, failedCount)
      else
        (let s1 = (update_item (item_id item) (\<lambda>i. i\<lparr>item_status := processing\<rparr>) s)
                    \<lparr>activeBatchItemId := Some (item_id item)\<rparr>
         in case abortControllerRef s1 of
              None \<Rightarrow>
                batch_loop world rest
                  (update_item (item_id item)
                     (\<lambda>i. i\<lparr>item_status := error, item_error := Some msg_null_signal\<rparr>) s1,
                   completedCount, failedCount + 1)
            | Some fired \<Rightarrow>
                (case world item of
                   (Inr response, during) \<Rightarrow>
                     batch_loop world rest
                       ((update_item (item_id item)
                           (\<lambda>i. i\<lparr>item_status := completed, item_result := Some response\<rparr>)
                           (interfere during s1))
                          \<lparr>itemSuccesses := itemSuccesses (interfere during s1)
                                               @ [(response, item_base64 item)]\<rparr>,
                        completedCount + 1, failedCount)
                 | (Inl err, during) \<Rightarrow>
                     if is_abort err
                     then (update_item (item_id item) (\<lambda>i. i\<lparr>item_status := pending\<rparr>)
                             (interfere during s1),
                           completedCount, failedCount, True)
                     else
                       batch_loop world rest
                         (update_item (item_id item)
                            (\<lambda>i. i\<lparr>item_status := error,
                                    item_error := Some (message_or_unknown_error err)\<rparr>)
                            (interfere during s1),
                          completedCount, failedCount + 1))))"

definition msg_batch_summary :: "nat \<Rightarrow> nat \<Rightarrow> string" where
  "msg_batch_summary completedCount failedCount =
     ''Batch finished: '' @ show_nat completedCount @ '' succeeded, '' @ show_nat failedCount
     @ '' failed''"

text \<open>What follows the loop: the aggregate report, under its guard.\<close>

definition batch_report :: "'r batch_state \<Rightarrow> nat \<Rightarrow> nat \<Rightarrow> 'r batch_state \<Rightarrow> 'r batch_state" where
  "batch_report s0 completedCount failedCount s =
     (if 0 < completedCount \<or> 0 < failedCount then
        (let s1 = (if \<not> truthy (activeBatchItemId s0) \<and> batchItems s0 \<noteq> []
                   then s\<lparr>activeBatchItemId := Some (item_id (hd (batchItems s0)))\<rparr> else s)
         in s1\<lparr>batchSummary := Some (completedCount, failedCount),
               toasts := toasts s1 @ [(msg_batch_summary completedCount failedCount,
                                        if 0 < completedCount then Toast_success else Toast_info)]\<rparr>)
      else s)"

text \<open>
  \<^verbatim>\<open>generateBatch\<close>; \<open>tagDataCsv\<close> is the dataset as the hook received it (\<open>None\<close> for
  \<^verbatim>\<open>null\<close>). The items, \<^verbatim>\<open>isProcessing\<close> and \<^verbatim>\<open>activeBatchItemId\<close> that the
  function reads are those of the state it starts in.
\<close>

definition generateBatch ::
  "('r BatchItem \<Rightarrow> (js_error + 'r) \<times> interference) \<Rightarrow> string option \<Rightarrow> 'r batch_state
     \<Rightarrow> 'r batch_state" where
  "generateBatch world tagDataCsv s0 =
     (if isProcessing s0 \<or> \<not> truthy tagDataCsv then s0
      else
        (case batch_loop world (batchItems s0)
                (s0\<lparr>abortControllerRef := Some False, isProcessing := True, batchSummary := None\<rparr>,
                 0, 0) of
           (s, completedCount, failedCount, stopped) \<Rightarrow>
             batch_report s0 completedCount failedCount
               (s\<lparr>isProcessing := False, abortControllerRef := None\<rparr>)))"

text \<open>Example data: five pending items; the second call is cancelled after two successes.\<close>

definition five_items :: "nat BatchItem list" where
  "five_items =
     map (\<lambda>n. \<lparr>item_id = n, item_base64 = [], item_status = pending,
                item_result = None, item_error = None\<rparr>)
       [''a'', ''b'', ''c'', ''d'', ''e'']"

definition fresh_batch :: "nat BatchItem list \<Rightarrow> nat batch_state" where
  "fresh_batch its =
     \<lparr>batchItems = its, activeBatchItemId = None, batchSummary = None, isProcessing = False,
      abortControllerRef = None, toasts = [], itemSuccesses = []\<rparr>"

definition cancel_at_third :: "nat BatchItem \<Rightarrow> (js_error + nat) \<times> interference" where
  "cancel_at_third item =
     (if item_id item = ''c'' then (Inl AbortError, Stop_pressed) else (Inr 1, Quiet))"

section \<open>The single-item controller: \<^verbatim>\<open>useSingleGenerator\<close>\<close>

text \<open>
  The hook as a state machine. Every call of \<^verbatim>\<open>generate\<close> that gets past its guard
  creates one \<^verbatim>\<open>AbortController\<close>; the controllers are numbered in the order of
  their creation, and a generation is known by the number of its controller.
  \<open>controllers s ! g\<close> tells whether the signal of controller \<open>g\<close> has fired,
  \<open>controllerRef\<close> is \<^verbatim>\<open>abortControllerRef.current\<close>, \<open>in_flight\<close> lists the
  generations that await the orchestrator, \<open>loadingTimers\<close> the generation whose five
  progress timers are pending, and \<open>history\<close> records what happened, in order.
\<close>

datatype single_event = Started nat | Succeeded nat | Failed nat | Returned_silently nat | Stopped

record 'r single_state =
  generatedResult :: "'r option"
  loadingStep :: "string option"
  error_message :: "string option"
  failoverInfo :: "(bool \<times> LlmProvider) option"
  loadingTimers :: "nat list"
  controllerRef :: "nat option"
  controllers :: "bool list"
  in_flight :: "nat list"
  shown_toasts :: "(string \<times> ToastType) list"
  history :: "single_event list"

definition initial_single :: "'r single_state" where
  "initial_single =
     \<lparr>generatedResult = None, loadingStep = None, error_message = None, failoverInfo = None,
      loadingTimers = [], controllerRef = None, controllers = [], in_flight = [],
      shown_toasts = [], history = []\<rparr>"

text \<open>\<^verbatim>\<open>if (abortControllerRef.current) abortControllerRef.current.abort();\<close>\<close>

definition abort_current :: "'r single_state \<Rightarrow> 'r single_state" where
  "abort_current s =
     (case controllerRef s of
        None \<Rightarrow> s
      | Some g \<Rightarrow> s\<lparr>controllers := (controllers s)[g := True]\<rparr>)"

text \<open>
  \<^verbatim>\<open>generate\<close> up to its \<^verbatim>\<open>await\<close>. The labels of the progress steps and the
  messages are written in Chinese in the source.
\<close>

definition generate_start :: "string option \<Rightarrow> bool \<Rightarrow> 'r single_state \<Rightarrow> 'r single_state" where
  "generate_start tagDataCsv isRegeneration s =
     (if \<not> truthy tagDataCsv then s\<lparr>error_message := Some ''Tag library not loaded yet''\<rparr>
      else
        (let g = length (controllers s);
             s1 = (abort_current s)\<lparr>controllerRef := Some g\<rparr>;
             s2 = s1\<lparr>controllers := controllers s1 @ [False], loadingTimers := [],
                     error_message := None\<rparr>;
             s3 = (if \<not> isRegeneration
                   then s2\<lparr>loadingStep := Some ''Preparing the image...'', generatedResult := None,
                           failoverInfo := None\<rparr>
                   else s2\<lparr>loadingStep := Some ''Thinking again from your feedback...''\<rparr>)
         in s3\<lparr>loadingTimers := replicate 5 g, in_flight := in_flight s3 @ [g],
               history := history s3 @ [Started g]\<rparr>))"

text \<open>The \<^verbatim>\<open>finally\<close> block.\<close>

definition generate_finally :: "'r single_state \<Rightarrow> 'r single_state" where
  "generate_finally s = s\<lparr>loadingTimers := [], loadingStep := None, controllerRef := None\<rparr>"

text \<open>
  \<^verbatim>\<open>generate\<close> from its \<^verbatim>\<open>await\<close> on, for generation \<open>g\<close>, when the orchestrator
  has answered with \<open>answer\<close>.
\<close>

definition generate_settle ::
  "nat \<Rightarrow> js_error + 'r GenerationResponse \<Rightarrow> 'r single_state \<Rightarrow> 'r single_state" where
  "generate_settle g answer s =
     (if g \<notin> set (in_flight s) then s
      else
        (let s0 = s\<lparr>in_flight := removeAll g (in_flight s)\<rparr> in
         case answer of
           Inr response \<Rightarrow>
             (let s1 = s0\<lparr>generatedResult := Some (result response)\<rparr>;
                  s2 = (if usedFailover response
                        then s1\<lparr>failoverInfo := Some (True, providerName response),
                                shown_toasts := shown_toasts s1
                                  @ [(''Switched to '' @ provider_name (providerName response),
                                      Toast_info)]\<rparr>
                        else s1\<lparr>failoverInfo := None\<rparr>)
              in generate_finally
                   (s2\<lparr>shown_toasts := shown_toasts s2 @ [(''Generation complete'', Toast_success)],
                       history := history s2 @ [Succeeded g]\<rparr>))
         | Inl err \<Rightarrow>
             if is_abort err
             then generate_finally (s0\<lparr>history := history s0 @ [Returned_silently g]\<rparr>)
             else
               generate_finally
                 (s0\<lparr>error_message :=
                        Some (if err = Thrown_undefined then ''An unknown error occurred.''
                              else message err),
                     shown_toasts := shown_toasts s0 @ [(''Generation failed'', Toast_error)],
                     history := history s0 @ [Failed g]\<rparr>)))"

text \<open>\<^verbatim>\<open>stopGeneration\<close> of this hook.\<close>

definition stop_single :: "'r single_state \<Rightarrow> 'r single_state" where
  "stop_single s =
     (case controllerRef s of
        None \<Rightarrow> s
      | Some g \<Rightarrow>
          (abort_current s)\<lparr>controllerRef := None, loadingTimers := [], loadingStep := None,
            shown_toasts := shown_toasts s @ [(''Generation stopped'', Toast_info)],
            history := history s @ [Stopped]\<rparr>)"

text \<open>What the user and the orchestrator do to the hook, one step at a time.\<close>

datatype 'r single_action =
    Generate bool
  | Settle nat "js_error + 'r GenerationResponse"
  | Stop

fun single_step :: "string option \<Rightarrow> 'r single_action \<Rightarrow> 'r single_state \<Rightarrow> 'r single_state" where
  "single_step tagDataCsv (Generate isRegeneration) s = generate_start tagDataCsv isRegeneration s"
| "single_step tagDataCsv (Settle g answer) s = generate_settle g answer s"
| "single_step tagDataCsv Stop s = stop_single s"

definition single_run :: "string option \<Rightarrow> 'r single_action list \<Rightarrow> 'r single_state" where
  "single_run tagDataCsv actions = fold (single_step tagDataCsv) actions initial_single"

text \<open>The tokens of the generations in flight that have not been cancelled.\<close>

definition live_tokens :: "'r single_state \<Rightarrow> nat list" where
  "live_tokens s = filter (\<lambda>g. \<not> controllers s ! g) (in_flight s)"

section \<open>Properties of the edit-distance matcher\<close>

subsection \<open>The recursion \<open>ed\<close> is the least number of edits\<close>
lemma neq_cost_le1: "neq_cost x y \<le> 1"
  by (simp add: neq_cost_def)

lemma ed_Nil2 [simp]: "ed xs [] = length xs"
  by (cases xs) simp_all

lemma ed_same [simp]: "ed a a = 0"
  by (induction a) (simp_all add: neq_cost_def)

lemma ed_ins2: "ed a (c # b) \<le> ed a b + 1"
  by (cases a) simp_all

lemma ed_ins1: "ed (c # a) b \<le> ed a b + 1"
  by (cases b) simp_all

lemma ed_del2: "ed a b \<le> ed a (c # b) + 1"
proof (induction a)
  case Nil
  show ?case by simp
next
  case (Cons x xs)
  have 1: "ed (x # xs) b \<le> ed xs b + 1" by (rule ed_ins1)
  show ?case using Cons 1 neq_cost_le1[of x c] by simp
qed

lemma ed_sub2: "ed a (d # b) \<le> ed a (c # b) + 1"
proof (induction a)
  case Nil
  show ?case by simp
next
  case (Cons x xs)
  show ?case using Cons neq_cost_le1[of x d] by simp
qed

lemma ed_ctx2:
  assumes "\<And>a. ed a c \<le> ed a b + 1"
  shows "ed a (z # c) \<le> ed a (z # b) + 1"
proof (induction a)
  case Nil
  show ?case using assms[of "[]"] by simp
next
  case (Cons x xs)
  have 1: "ed (x # xs) (z # c) \<le> ed (x # xs) c + 1" by (rule ed_ins2)
  show ?case using Cons assms[of "x # xs"] assms[of xs] by simp
qed

lemma ed_step_le: "edit_step b c \<Longrightarrow> ed a c \<le> ed a b + 1"
proof (induction arbitrary: a rule: edit_step.induct)
  case (ins xs c)
  show ?case by (rule ed_ins2)
next
  case (del c xs)
  show ?case by (rule ed_del2)
next
  case (sub c xs d)
  show ?case by (rule ed_sub2)
next
  case (ctx xs ys z)
  show ?case by (rule ed_ctx2) (rule ctx.IH)
qed

lemma ed_le_transforms: "transforms n a b \<Longrightarrow> ed a b \<le> n"
proof (induction rule: transforms.induct)
  case (done0 a)
  show ?case by simp
next
  case (more n a b c)
  from ed_step_le[OF more.hyps(2), of a] more.IH show ?case by simp
qed

lemma transforms_trans:
  "transforms n b c \<Longrightarrow> transforms m a b \<Longrightarrow> transforms (m + n) a c"
proof (induction rule: transforms.induct)
  case (done0 b)
  then show ?case by simp
next
  case (more n b c d)
  from more.IH[OF more.prems] more.hyps(2) show ?case
    by (simp add: transforms.more)
qed

lemma transforms_one: "edit_step a b \<Longrightarrow> transforms (Suc 0) a b"
  using transforms.more[OF transforms.done0] by blast

lemma transforms_first:
  "edit_step a b \<Longrightarrow> transforms n b c \<Longrightarrow> transforms (Suc n) a c"
  using transforms_trans[OF _ transforms_one, of n b c a] by simp

lemma transforms_Cons: "transforms n a b \<Longrightarrow> transforms n (z # a) (z # b)"
  by (induction rule: transforms.induct) (auto intro: transforms.intros edit_step.ctx)

lemma transforms_insert_all: "transforms (length ys) [] ys"
proof (induction ys)
  case Nil
  show ?case by (simp add: transforms.done0)
next
  case (Cons y ys)
  from transforms.more[OF Cons edit_step.ins[of ys y]] show ?case by simp
qed

lemma transforms_delete_all: "transforms (length xs) xs []"
proof (induction xs)
  case Nil
  show ?case by (simp add: transforms.done0)
next
  case (Cons x xs)
  from transforms_first[OF edit_step.del[of x xs] Cons] show ?case by simp
qed

lemma transforms_ed: "transforms (ed a b) a b"
proof (induction a b rule: ed.induct)
  case (1 ys)
  show ?case by (simp add: transforms_insert_all)
next
  case (2 x xs)
  show ?case using transforms_delete_all[of "x # xs"] by simp
next
  case (3 x xs y ys)
  let ?A = "ed xs (y # ys) + 1" and ?B = "ed (x # xs) ys + 1" and ?C = "ed xs ys + neq_cost x y"
  have e: "ed (x # xs) (y # ys) = min ?A (min ?B ?C)" by simp
  have A: "transforms ?A (x # xs) (y # ys)"
    using transforms_first[OF edit_step.del[of x xs] "3.IH"(1)] by simp
  have B: "transforms ?B (x # xs) (y # ys)"
    using transforms.more[OF "3.IH"(2) edit_step.ins[of ys y]] by simp
  have C: "transforms ?C (x # xs) (y # ys)"
  proof (cases "x = y")
    case True
    then show ?thesis using transforms_Cons[OF "3.IH"(3), of x] by (simp add: neq_cost_def)
  next
    case False
    from transforms.more[OF transforms_Cons[OF "3.IH"(3), of x] edit_step.sub[of x ys y]] False
    show ?thesis by (simp add: neq_cost_def)
  qed
  have "min ?A (min ?B ?C) = ?A \<or> min ?A (min ?B ?C) = ?B \<or> min ?A (min ?B ?C) = ?C"
    by (simp add: min_def)
  with A B C show ?case unfolding e by metis
qed

lemma edit_step_sym: "edit_step a b \<Longrightarrow> edit_step b a"
  by (induction rule: edit_step.induct) (auto intro: edit_step.intros)

lemma transforms_sym: "transforms n a b \<Longrightarrow> transforms n b a"
proof (induction rule: transforms.induct)
  case (done0 a)
  show ?case by (rule transforms.done0)
next
  case (more n a b c)
  from transforms_first[OF edit_step_sym[OF more.hyps(2)] more.IH] show ?case .
qed

lemma ed_sym: "ed a b = ed b a"
  by (rule antisym) (simp_all add: ed_le_transforms transforms_sym transforms_ed)

lemma ed_triangle: "ed a c \<le> ed a b + ed b c"
  by (rule ed_le_transforms) (rule transforms_trans[OF transforms_ed transforms_ed])

lemma edit_step_snoc: "edit_step xs ys \<Longrightarrow> edit_step (xs @ zs) (ys @ zs)"
  by (induction rule: edit_step.induct) (auto intro: edit_step.intros)

lemma edit_step_append_one: "edit_step us (us @ [c])"
  by (induction us) (auto intro: edit_step.intros)

lemma edit_step_replace_last: "edit_step (us @ [c]) (us @ [d])"
  by (induction us) (auto intro: edit_step.intros)

lemma edit_step_rev: "edit_step a b \<Longrightarrow> edit_step (rev a) (rev b)"
proof (induction rule: edit_step.induct)
  case (ins xs c)
  show ?case by (simp add: edit_step_append_one)
next
  case (del c xs)
  show ?case by (simp add: edit_step_sym[OF edit_step_append_one])
next
  case (sub c xs d)
  show ?case by (simp add: edit_step_replace_last)
next
  case (ctx xs ys z)
  then show ?case by (simp add: edit_step_snoc)
qed

lemma transforms_rev: "transforms n a b \<Longrightarrow> transforms n (rev a) (rev b)"
  by (induction rule: transforms.induct) (auto intro: transforms.intros edit_step_rev)

lemma ed_rev_le: "ed (rev a) (rev b) \<le> ed a b"
  by (rule ed_le_transforms) (rule transforms_rev[OF transforms_ed])

lemma ed_rev: "ed (rev a) (rev b) = ed a b"
  using ed_rev_le[of a b] ed_rev_le[of "rev a" "rev b"] by simp

lemma ed_snoc:
  "ed (xs @ [x]) (ys @ [y]) =
     min (ed xs (ys @ [y]) + 1) (min (ed (xs @ [x]) ys + 1) (ed xs ys + neq_cost x y))"
proof -
  have "ed (xs @ [x]) (ys @ [y]) = ed (x # rev xs) (y # rev ys)"
    using ed_rev[of "xs @ [x]" "ys @ [y]"] by simp
  also have "\<dots> = min (ed (rev xs) (y # rev ys) + 1)
      (min (ed (x # rev xs) (rev ys) + 1) (ed (rev xs) (rev ys) + neq_cost x y))"
    by simp
  also have "ed (rev xs) (y # rev ys) = ed xs (ys @ [y])"
    using ed_rev[of xs "ys @ [y]"] by simp
  also have "ed (x # rev xs) (rev ys) = ed (xs @ [x]) ys"
    using ed_rev[of "xs @ [x]" ys] by simp
  also have "ed (rev xs) (rev ys) = ed xs ys" by (rule ed_rev)
  finally show ?thesis .
qed

subsection \<open>The matrix of the source holds the values of the recursion\<close>

lemma edp_0_left [simp]: "edp s t 0 j = int (min (length t) j)"
  by (simp add: edp_def)

lemma edp_0_right [simp]: "edp s t i 0 = int (min (length s) i)"
  by (simp add: edp_def)

lemma edp_step:
  assumes "i < length s" "j < length t"
  shows "edp s t (Suc i) (Suc j) =
    min (edp s t i (Suc j) + 1)
      (min (edp s t (Suc i) j + 1) (edp s t i j + (if s ! i = t ! j then 0 else 1)))"
  using assms
  by (simp add: edp_def take_Suc_conv_app_nth ed_snoc neq_cost_def) (simp add: min_def)

lemma arr_put_end [simp]: "arr_put xs (length xs) v = xs @ [v]"
  by (simp add: arr_put_def)

lemma fold_arr_put: "fold (\<lambda>i d. arr_put d i (f i)) [0..<k] [] = map f [0..<k]"
  by (induction k) (simp_all add: arr_put_def)

lemma lev_init_rows_eq: "lev_init_rows m = map (\<lambda>i. [int i]) [0..<Suc m]"
  unfolding lev_init_rows_def by (rule fold_arr_put)

lemma fold_cols:
  assumes "d ! 0 = [0]" "0 < length d"
  shows "fold (\<lambda>j d. cell_put d 0 j (int j)) [0..<Suc k] d = d[0 := map int [0..<Suc k]]"
proof (induction k)
  case 0
  show ?case using assms by (simp add: cell_put_def arr_put_def list_update_same_conv)
next
  case (Suc k)
  have "fold (\<lambda>j d. cell_put d 0 j (int j)) [0..<Suc (Suc k)] d =
        cell_put (d[0 := map int [0..<Suc k]]) 0 (Suc k) (int (Suc k))"
    using Suc by simp
  also have "\<dots> = d[0 := map int [0..<Suc (Suc k)]]"
    using assms(2) by (simp add: cell_put_def arr_put_def)
  finally show ?case .
qed

lemma lev_init_eq:
  "lev_init_cols (length t) (lev_init_rows (length s)) = edp_rows s t 0"
proof -
  let ?d = "lev_init_rows (length s)"
  have d0: "?d ! 0 = [0]" and len: "0 < length ?d"
    by (simp_all add: lev_init_rows_eq nth_map_upt del: upt_Suc)
  have "lev_init_cols (length t) ?d = ?d[0 := map int [0..<Suc (length t)]]"
    unfolding lev_init_cols_def by (rule fold_cols[OF d0 len])
  also have "\<dots> = edp_rows s t 0"
    by (rule nth_equalityI)
       (auto simp: lev_init_rows_eq edp_rows_def edp_row_def nth_list_update nth_map_upt
             simp del: upt_Suc)
  finally show ?thesis .
qed

lemma edp_row_nth: "j \<le> k \<Longrightarrow> edp_row s t i k ! j = edp s t i j"
  unfolding edp_row_def by (simp add: nth_map_upt del: upt_Suc)

lemma edp_row_length [simp]: "length (edp_row s t i k) = Suc k"
  by (simp add: edp_row_def)

lemma edp_row_Suc: "edp_row s t i (Suc k) = edp_row s t i k @ [edp s t i (Suc k)]"
  by (simp add: edp_row_def)

lemma fill_row:
  assumes i: "i < length s" and len: "Suc i < length d"
    and prev: "d ! i = edp_row s t i (length t)"
    and cur: "d ! Suc i = [int (Suc i)]"
    and k: "k \<le> length t"
  shows "fold (\<lambda>j d. lev_cell s t (Suc i) j d) [1..<Suc k] d = d[Suc i := edp_row s t (Suc i) k]"
  using k
proof (induction k)
  case 0
  have "edp_row s t (Suc i) 0 = [int (Suc i)]"
    using i by (simp add: edp_row_def)
  then have "d[Suc i := edp_row s t (Suc i) 0] = d[Suc i := d ! Suc i]"
    using cur by simp
  then show ?case by (simp del: list_update_id add: list_update_id)
next
  case (Suc k)
  let ?d = "d[Suc i := edp_row s t (Suc i) k]"
  have kt: "k < length t" using Suc.prems by simp
  have a: "?d ! i ! Suc k = edp s t i (Suc k)"
    using prev Suc.prems by (simp add: edp_row_nth)
  have b: "?d ! Suc i ! k = edp s t (Suc i) k"
    using len by (simp add: edp_row_nth)
  have c: "?d ! i ! k = edp s t i k"
    using prev Suc.prems by (simp add: edp_row_nth)
  have "fold (\<lambda>j d. lev_cell s t (Suc i) j d) [1..<Suc (Suc k)] d = lev_cell s t (Suc i) (Suc k) ?d"
    using Suc by simp
  also have "\<dots> = cell_put ?d (Suc i) (Suc k) (edp s t (Suc i) (Suc k))"
    unfolding lev_cell_def Let_def using a b c edp_step[OF i kt] by simp
  also have "\<dots> = d[Suc i := edp_row s t (Suc i) (Suc k)]"
    using len by (simp add: cell_put_def arr_put_def edp_row_Suc)
  finally show ?case .
qed

lemma edp_rows_length [simp]: "length (edp_rows s t k) = Suc (length s)"
  by (simp add: edp_rows_def)

lemma edp_rows_nth:
  "i \<le> length s \<Longrightarrow>
   edp_rows s t k ! i = (if i \<le> k then edp_row s t i (length t) else [int i])"
  unfolding edp_rows_def by (simp add: nth_map_upt del: upt_Suc)

lemma edp_rows_Suc:
  assumes "k < length s"
  shows "(edp_rows s t k)[Suc k := edp_row s t (Suc k) (length t)] = edp_rows s t (Suc k)"
  using assms by (intro nth_equalityI) (auto simp: nth_list_update edp_rows_nth)

lemma fill_rows:
  "k \<le> length s \<Longrightarrow>
   fold (\<lambda>i d. fold (\<lambda>j d. lev_cell s t i j d) [1..<Suc (length t)] d) [1..<Suc k] (edp_rows s t 0)
     = edp_rows s t k"
proof (induction k)
  case 0
  show ?case by simp
next
  case (Suc k)
  have ks: "k < length s" using Suc.prems by simp
  have "fold (\<lambda>i d. fold (\<lambda>j d. lev_cell s t i j d) [1..<Suc (length t)] d) [1..<Suc (Suc k)]
          (edp_rows s t 0)
        = fold (\<lambda>j d. lev_cell s t (Suc k) j d) [1..<Suc (length t)] (edp_rows s t k)"
    using Suc by simp
  also have "\<dots> = (edp_rows s t k)[Suc k := edp_row s t (Suc k) (length t)]"
    using ks by (intro fill_row) (simp_all add: edp_rows_nth)
  also have "\<dots> = edp_rows s t (Suc k)"
    by (rule edp_rows_Suc[OF ks])
  finally show ?case .
qed

lemma lev_fill_eq:
  "lev_fill s t (lev_init_cols (length t) (lev_init_rows (length s))) = edp_rows s t (length s)"
  unfolding lev_fill_def lev_init_eq by (rule fill_rows) simp

lemma levenshteinDistance_ed: "levenshteinDistance s t = int (ed s t)"
proof -
  have "edp_rows s t (length s) ! length s ! length t = int (ed s t)"
    by (simp add: edp_rows_nth edp_row_nth edp_def)
  then show ?thesis
    unfolding levenshteinDistance_def lev_fill_eq by auto
qed

subsection \<open>The contract of the matcher\<close>

lemma levenshteinDistance_least:
  "transforms (ed a b) a b \<and> (\<forall>n. transforms n a b \<longrightarrow> ed a b \<le> n)"
  using transforms_ed ed_le_transforms by blast

text \<open>
  Claim C10. For all strings \<open>a\<close>, \<open>b\<close> and \<open>c\<close>, \<^verbatim>\<open>levenshteinDistance(a, b)\<close> is a
  non-negative integer \<open>k\<close> such that \<open>k\<close> single-character insertions, deletions and
  substitutions transform \<open>a\<close> into \<open>b\<close> and no smaller number of them does; the
  distance is symmetric, it is 0 from a string to itself, and it satisfies the triangle
  inequality.
\<close>

theorem levenshteinDistance_metric:
  "(\<exists>k. levenshteinDistance a b = int k \<and> transforms k a b \<and>
        (\<forall>n. transforms n a b \<longrightarrow> k \<le> n))
   \<and> 0 \<le> levenshteinDistance a b
   \<and> levenshteinDistance a b = levenshteinDistance b a
   \<and> levenshteinDistance a a = 0
   \<and> levenshteinDistance a c \<le> levenshteinDistance a b + levenshteinDistance b c"
proof (intro conjI)
  show "\<exists>k. levenshteinDistance a b = int k \<and> transforms k a b \<and>
        (\<forall>n. transforms n a b \<longrightarrow> k \<le> n)"
    using levenshteinDistance_least[of a b] levenshteinDistance_ed[of a b] by blast
  show "0 \<le> levenshteinDistance a b"
    by (simp add: levenshteinDistance_ed)
  show "levenshteinDistance a b = levenshteinDistance b a"
    by (simp add: levenshteinDistance_ed ed_sym[of a b])
  show "levenshteinDistance a a = 0"
    by (simp add: levenshteinDistance_ed)
  show "levenshteinDistance a c \<le> levenshteinDistance a b + levenshteinDistance b c"
    using ed_triangle[of a c b] by (simp add: levenshteinDistance_ed)
qed

text \<open>
  The theorem at \<open>a = actoin\<close>, \<open>b = action\<close>, \<open>c = actiin\<close>: two substitutions lead from
  \<open>a\<close> to \<open>b\<close>, so the distance is at most 2.
\<close>

theorem levenshteinDistance_metric_witness:
  "transforms 2 ''actoin'' ''action''
   \<and> levenshteinDistance ''actoin'' ''action'' \<le> 2
   \<and> 0 \<le> levenshteinDistance ''actoin'' ''action''
   \<and> levenshteinDistance ''actoin'' ''action'' = levenshteinDistance ''action'' ''actoin''
   \<and> levenshteinDistance ''actoin'' ''actoin'' = 0
   \<and> levenshteinDistance ''actoin'' ''actiin''
        \<le> levenshteinDistance ''actoin'' ''action'' + levenshteinDistance ''action'' ''actiin''"
proof -
  have s1: "edit_step ''actoin'' ''actiin''"
    by (intro edit_step.ctx) (rule edit_step.sub)
  have s2: "edit_step ''actiin'' ''action''"
    by (intro edit_step.ctx) (rule edit_step.sub)
  have "transforms (Suc (Suc 0)) ''actoin'' ''action''"
    by (rule transforms.more[OF transforms.more[OF transforms.done0 s1] s2])
  then have path: "transforms 2 ''actoin'' ''action''"
    by (simp add: numeral_2_eq_2)
  from levenshteinDistance_metric[of "''actoin''" "''action''" "''actiin''"]
  obtain k where k: "levenshteinDistance ''actoin'' ''action'' = int k"
      and least: "\<forall>n. transforms n ''actoin'' ''action'' \<longrightarrow> k \<le> n"
      and rest: "0 \<le> levenshteinDistance ''actoin'' ''action''"
        "levenshteinDistance ''actoin'' ''action'' = levenshteinDistance ''action'' ''actoin''"
        "levenshteinDistance ''actoin'' ''actoin'' = 0"
        "levenshteinDistance ''actoin'' ''actiin''
          \<le> levenshteinDistance ''actoin'' ''action'' + levenshteinDistance ''action'' ''actiin''"
    by blast
  from least path have "k \<le> 2" by blast
  with k have "levenshteinDistance ''actoin'' ''action'' \<le> 2" by simp
  with path rest show ?thesis by blast
qed

section \<open>Properties of the tag library index and the tag normalizer\<close>

subsection \<open>The normalizer keeps first occurrences\<close>

lemma drop_seen_length: "length (drop_seen seen xs) \<le> length xs"
  by (induction xs arbitrary: seen) (simp_all add: Let_def le_SucI)

lemma drop_seen_names: "set (map name (drop_seen seen xs)) = set (map name xs) - seen"
  by (induction xs arbitrary: seen) (auto simp: Let_def)

lemma drop_seen_name_image: "name ` set (drop_seen seen xs) = name ` set xs - seen"
  using drop_seen_names[of seen xs] by simp

lemma drop_seen_distinct: "distinct (map name (drop_seen seen xs))"
proof (induction xs arbitrary: seen)
  case Nil
  show ?case by simp
next
  case (Cons x xs)
  have "name x \<notin> name ` set (drop_seen (insert (name x) seen) xs)"
    by (simp add: drop_seen_name_image)
  with Cons[of "insert (name x) seen"] show ?case by (simp add: Let_def)
qed

lemma map_filter_length: "length (List.map_filter f xs) \<le> length xs"
  by (simp add: List.map_filter_def)

lemma normalize_one_Some:
  "normalize_one lk t = Some u \<longleftrightarrow> (\<exists>c. lk (name t) = Some c \<and> c \<noteq> [] \<and> u = t\<lparr>name := c\<rparr>)"
  by (auto simp: normalize_one_def split: option.splits)

lemma normalize_one_None:
  "normalize_one lk t = None \<longleftrightarrow> (lk (name t) = None \<or> lk (name t) = Some [])"
  by (auto simp: normalize_one_def split: option.splits)

lemma first_occurrences:
  "\<exists>ks. sorted_wrt (<) ks
     \<and> (\<forall>k\<in>set ks. k < length raw \<and>
          (\<exists>c. lk (name (raw ! k)) = Some c \<and> c \<noteq> [] \<and> c \<notin> seen \<and>
               (\<forall>j<k. lk (name (raw ! j)) \<noteq> Some c)))
     \<and> drop_seen seen (List.map_filter (normalize_one lk) raw)
         = map (\<lambda>k. (raw ! k)\<lparr>name := the (lk (name (raw ! k)))\<rparr>) ks
     \<and> (\<forall>j<length raw. \<forall>c. lk (name (raw ! j)) = Some c \<and> c \<noteq> [] \<and> c \<notin> seen \<longrightarrow>
          (\<exists>k\<in>set ks. lk (name (raw ! k)) = Some c))"
proof (induction raw arbitrary: seen)
  case Nil
  show ?case by (intro exI[of _ "[]"]) simp
next
  case (Cons t ts)
  let ?f = "normalize_one lk"
  let ?g = "\<lambda>xs k. (xs ! k)\<lparr>name := the (lk (name (xs ! k)))\<rparr>"
  show ?case
  proof (cases "\<exists>c. lk (name t) = Some c \<and> c \<noteq> [] \<and> c \<notin> seen")
    case True
    then obtain c where c: "lk (name t) = Some c" "c \<noteq> []" "c \<notin> seen" by blast
    from Cons[of "insert c seen"] obtain ks where ks:
      "sorted_wrt (<) ks"
      "\<forall>k\<in>set ks. k < length ts \<and>
          (\<exists>d. lk (name (ts ! k)) = Some d \<and> d \<noteq> [] \<and> d \<notin> insert c seen \<and>
               (\<forall>j<k. lk (name (ts ! j)) \<noteq> Some d))"
      "drop_seen (insert c seen) (List.map_filter ?f ts) = map (?g ts) ks"
      "\<forall>j<length ts. \<forall>d. lk (name (ts ! j)) = Some d \<and> d \<noteq> [] \<and> d \<notin> insert c seen \<longrightarrow>
          (\<exists>k\<in>set ks. lk (name (ts ! k)) = Some d)"
      by blast
    let ?ks = "0 # map Suc ks"
    have f: "?f t = Some (t\<lparr>name := c\<rparr>)" using c by (simp add: normalize_one_Some)
    have 1: "sorted_wrt (<) ?ks" using ks(1) by (simp add: sorted_wrt_map)
    have 2: "\<forall>k\<in>set ?ks. k < length (t # ts) \<and>
          (\<exists>d. lk (name ((t # ts) ! k)) = Some d \<and> d \<noteq> [] \<and> d \<notin> seen \<and>
               (\<forall>j<k. lk (name ((t # ts) ! j)) \<noteq> Some d))"
    proof
      fix k assume "k \<in> set ?ks"
      then consider "k = 0" | k' where "k = Suc k'" "k' \<in> set ks" by auto
      then show "k < length (t # ts) \<and>
          (\<exists>d. lk (name ((t # ts) ! k)) = Some d \<and> d \<noteq> [] \<and> d \<notin> seen \<and>
               (\<forall>j<k. lk (name ((t # ts) ! j)) \<noteq> Some d))"
      proof cases
        case 1
        then show ?thesis using c by simp
      next
        case 2
        from ks(2) 2(2) obtain d where d: "k' < length ts" "lk (name (ts ! k')) = Some d"
          "d \<noteq> []" "d \<notin> insert c seen" "\<forall>j<k'. lk (name (ts ! j)) \<noteq> Some d" by blast
        have "\<forall>j<Suc k'. lk (name ((t # ts) ! j)) \<noteq> Some d"
        proof (intro allI impI)
          fix j assume "j < Suc k'"
          then show "lk (name ((t # ts) ! j)) \<noteq> Some d"
            using d(4,5) c(1) by (cases j) auto
        qed
        then show ?thesis using 2(1) d by auto
      qed
    qed
    have 3: "drop_seen seen (List.map_filter ?f (t # ts)) = map (?g (t # ts)) ?ks"
      using f c ks(3) by (simp add: Let_def o_def)
    have 4: "\<forall>j<length (t # ts). \<forall>d. lk (name ((t # ts) ! j)) = Some d \<and> d \<noteq> [] \<and> d \<notin> seen \<longrightarrow>
          (\<exists>k\<in>set ?ks. lk (name ((t # ts) ! k)) = Some d)"
    proof (intro allI impI)
      fix j d assume j: "j < length (t # ts)"
        and d: "lk (name ((t # ts) ! j)) = Some d \<and> d \<noteq> [] \<and> d \<notin> seen"
      show "\<exists>k\<in>set ?ks. lk (name ((t # ts) ! k)) = Some d"
      proof (cases "d = c")
        case True
        then show ?thesis using c by (intro bexI[of _ 0]) simp_all
      next
        case False
        with d c have "j \<noteq> 0" by (cases j) auto
        then obtain j' where j': "j = Suc j'" by (cases j) auto
        with j d False ks(4) obtain k where "k \<in> set ks" "lk (name (ts ! k)) = Some d"
          by auto
        then show ?thesis by (intro bexI[of _ "Suc k"]) simp_all
      qed
    qed
    from 1 2 3 4 show ?thesis by blast
  next
    case False
    from Cons[of seen] obtain ks where ks:
      "sorted_wrt (<) ks"
      "\<forall>k\<in>set ks. k < length ts \<and>
          (\<exists>d. lk (name (ts ! k)) = Some d \<and> d \<noteq> [] \<and> d \<notin> seen \<and>
               (\<forall>j<k. lk (name (ts ! j)) \<noteq> Some d))"
      "drop_seen seen (List.map_filter ?f ts) = map (?g ts) ks"
      "\<forall>j<length ts. \<forall>d. lk (name (ts ! j)) = Some d \<and> d \<noteq> [] \<and> d \<notin> seen \<longrightarrow>
          (\<exists>k\<in>set ks. lk (name (ts ! k)) = Some d)"
      by blast
    let ?ks = "map Suc ks"
    have 1: "sorted_wrt (<) ?ks" using ks(1) by (simp add: sorted_wrt_map)
    have 2: "\<forall>k\<in>set ?ks. k < length (t # ts) \<and>
          (\<exists>d. lk (name ((t # ts) ! k)) = Some d \<and> d \<noteq> [] \<and> d \<notin> seen \<and>
               (\<forall>j<k. lk (name ((t # ts) ! j)) \<noteq> Some d))"
    proof
      fix k assume "k \<in> set ?ks"
      then obtain k' where k': "k = Suc k'" "k' \<in> set ks" by auto
      from ks(2) k'(2) obtain d where d: "k' < length ts" "lk (name (ts ! k')) = Some d"
          "d \<noteq> []" "d \<notin> seen" "\<forall>j<k'. lk (name (ts ! j)) \<noteq> Some d" by blast
      have "\<forall>j<Suc k'. lk (name ((t # ts) ! j)) \<noteq> Some d"
      proof (intro allI impI)
        fix j assume "j < Suc k'"
        then show "lk (name ((t # ts) ! j)) \<noteq> Some d"
          using d(3,4,5) False by (cases j) auto
      qed
      then show "k < length (t # ts) \<and>
          (\<exists>d. lk (name ((t # ts) ! k)) = Some d \<and> d \<noteq> [] \<and> d \<notin> seen \<and>
               (\<forall>j<k. lk (name ((t # ts) ! j)) \<noteq> Some d))"
        using k'(1) d by auto
    qed
    have 3: "drop_seen seen (List.map_filter ?f (t # ts)) = map (?g (t # ts)) ?ks"
    proof (cases "?f t")
      case None
      then show ?thesis using ks(3) by (simp add: o_def)
    next
      case (Some u)
      then obtain c where c: "lk (name t) = Some c" "c \<noteq> []" "u = t\<lparr>name := c\<rparr>"
        by (auto simp: normalize_one_Some)
      with False have "c \<in> seen" by blast
      then have "insert c seen = seen" by blast
      then show ?thesis using Some c ks(3) \<open>c \<in> seen\<close> by (simp add: Let_def o_def)
    qed
    have 4: "\<forall>j<length (t # ts). \<forall>d. lk (name ((t # ts) ! j)) = Some d \<and> d \<noteq> [] \<and> d \<notin> seen \<longrightarrow>
          (\<exists>k\<in>set ?ks. lk (name ((t # ts) ! k)) = Some d)"
    proof (intro allI impI)
      fix j d assume j: "j < length (t # ts)"
        and d: "lk (name ((t # ts) ! j)) = Some d \<and> d \<noteq> [] \<and> d \<notin> seen"
      with False have "j \<noteq> 0" by (cases j) auto
      then obtain j' where j': "j = Suc j'" by (cases j) auto
      with j d ks(4) obtain k where "k \<in> set ks" "lk (name (ts ! k)) = Some d"
        by auto
      then show "\<exists>k\<in>set ?ks. lk (name ((t # ts) ! k)) = Some d"
        by (intro bexI[of _ "Suc k"]) simp_all
    qed
    from 1 2 3 4 show ?thesis by blast
  qed
qed

subsection \<open>The index is well formed; the scan finds the best key\<close>

lemma toLowerCase_Nil [simp]: "toLowerCase s = [] \<longleftrightarrow> s = []"
  by (simp add: toLowerCase_def)

lemma empty_index_ok: "index_ok empty_index"
  by (simp add: index_ok_def empty_index_def)

lemma register_ok: "index_ok idx \<Longrightarrow> k \<noteq> [] \<Longrightarrow> v \<noteq> [] \<Longrightarrow> index_ok (register k v idx)"
  by (auto simp: index_ok_def register_def)

lemma index_line_ok: "index_ok idx \<Longrightarrow> index_ok (index_line targetLang line idx)"
  unfolding index_line_def Let_def
  by (auto intro!: register_ok split: lang.splits)

lemma fold_index_line_ok:
  "index_ok idx \<Longrightarrow> index_ok (fold (index_line targetLang) ls idx)"
  by (induction ls arbitrary: idx) (simp_all add: index_line_ok)

lemma build_index_ok: "index_ok (build_index targetLang csv)"
  unfolding build_index_def by (rule fold_index_line_ok[OF empty_index_ok])

lemma ed_length_diff: "\<bar>int (length a) - int (length b)\<bar> \<le> int (ed a b)"
  by (induction a b rule: ed.induct) (auto simp: min_def)

lemma levenshteinDistance_length_diff:
  "\<bar>int (length b) - int (length a)\<bar> \<le> levenshteinDistance a b"
  using ed_length_diff[of a b] by (simp add: levenshteinDistance_ed)

lemma levenshteinDistance_zero: "levenshteinDistance a b = 0 \<longleftrightarrow> a = b"
proof
  assume "levenshteinDistance a b = 0"
  then have "ed a b = 0" by (simp add: levenshteinDistance_ed)
  then have "transforms 0 a b" using transforms_ed[of a b] by simp
  then show "a = b" by (cases rule: transforms.cases) simp_all
next
  assume "a = b"
  then show "levenshteinDistance a b = 0" by (simp add: levenshteinDistance_ed)
qed

lemma fuzzy_step_eq:
  "fuzzy_step n D key acc =
     (if levenshteinDistance n key \<le> D \<and> below_min (levenshteinDistance n key) (snd acc)
      then (Some key, Some (levenshteinDistance n key)) else acc)"
  using levenshteinDistance_length_diff[of key n]
  by (auto simp: fuzzy_step_def Let_def)

lemma best_at_unique: "best_at n D keys i \<Longrightarrow> best_at n D keys i' \<Longrightarrow> i = i'"
proof (rule ccontr)
  assume a: "best_at n D keys i" "best_at n D keys i'" and ne: "i \<noteq> i'"
  have aux: "False" if "best_at n D keys p" "best_at n D keys q" "p < q" for p q
  proof -
    from that(1) have p: "p < length keys" "levenshteinDistance n (keys ! p) \<le> D"
      "\<forall>j<length keys. levenshteinDistance n (keys ! j) \<le> D \<longrightarrow>
         levenshteinDistance n (keys ! p) \<le> levenshteinDistance n (keys ! j)"
      by (simp_all add: best_at_def)
    from that(2) have q: "q < length keys" "levenshteinDistance n (keys ! q) \<le> D"
      "\<forall>j<q. levenshteinDistance n (keys ! j) \<le> D \<longrightarrow>
         levenshteinDistance n (keys ! q) < levenshteinDistance n (keys ! j)"
      by (simp_all add: best_at_def)
    from q(3) that(3) p(2) have "levenshteinDistance n (keys ! q) < levenshteinDistance n (keys ! p)"
      by blast
    moreover from p(3) q(1,2) have "levenshteinDistance n (keys ! p) \<le> levenshteinDistance n (keys ! q)"
      by blast
    ultimately show False by simp
  qed
  from ne consider "i < i'" | "i' < i" by linarith
  then show False using aux a by cases blast+
qed

lemma fuzzy_scan_invariant:
  "(case fuzzy_scan n D keys of
      (None, None) \<Rightarrow> \<forall>k\<in>set keys. D < levenshteinDistance n k
    | (Some k, Some m) \<Rightarrow> \<exists>i. best_at n D keys i \<and> k = keys ! i \<and> m = levenshteinDistance n k
    | _ \<Rightarrow> False)"
proof (induction keys rule: rev_induct)
  case Nil
  show ?case by (simp add: fuzzy_scan_def)
next
  case (snoc x keys)
  let ?d = "levenshteinDistance n"
  obtain b m where acc: "fuzzy_scan n D keys = (b, m)" by (cases "fuzzy_scan n D keys")
  have step: "fuzzy_scan n D (keys @ [x]) =
      (if ?d x \<le> D \<and> below_min (?d x) m then (Some x, Some (?d x)) else (b, m))"
    using acc by (simp add: fuzzy_scan_def fuzzy_step_eq)
  show ?case
  proof (cases b)
    case None
    with snoc acc have m: "m = None" and far: "\<forall>k\<in>set keys. D < ?d k"
      by (auto split: option.splits)
    have farI: "D < ?d (keys ! j)" if "j < length keys" for j
      using far that nth_mem by blast
    show ?thesis
    proof (cases "?d x \<le> D")
      case True
      have "best_at n D (keys @ [x]) (length keys)"
        unfolding best_at_def using True farI
        by (auto simp: nth_append less_Suc_eq) force+
      then show ?thesis using step True m by (auto simp: below_min_def)
    next
      case False
      then show ?thesis using step far None m by auto
    qed
  next
    case (Some k)
    with snoc acc obtain i where i: "best_at n D keys i" "k = keys ! i" "m = Some (?d k)"
      by (auto split: option.splits)
    from i(1) have il: "i < length keys" and ik: "?d (keys ! i) \<le> D"
      and imin: "\<forall>j<length keys. ?d (keys ! j) \<le> D \<longrightarrow> ?d (keys ! i) \<le> ?d (keys ! j)"
      and ifirst: "\<forall>j<i. ?d (keys ! j) \<le> D \<longrightarrow> ?d (keys ! i) < ?d (keys ! j)"
      by (simp_all add: best_at_def)
    show ?thesis
    proof (cases "?d x \<le> D \<and> ?d x < ?d k")
      case True
      have "best_at n D (keys @ [x]) (length keys)"
        unfolding best_at_def using True imin i(2)
        by (auto simp: nth_append less_Suc_eq)
      then show ?thesis using step True i(3) by (auto simp: below_min_def)
    next
      case False
      have "best_at n D (keys @ [x]) i"
        unfolding best_at_def using False il ik imin ifirst i(2)
        by (auto simp: nth_append less_Suc_eq)
      then show ?thesis using step False i Some il by (auto simp: below_min_def nth_append)
    qed
  qed
qed

lemma fuzzy_scan_none:
  assumes far: "\<forall>k\<in>set keys. D < levenshteinDistance n k"
  shows "fst (fuzzy_scan n D keys) = None"
proof (rule ccontr)
  assume "fst (fuzzy_scan n D keys) \<noteq> None"
  then obtain k m where "fuzzy_scan n D keys = (Some k, m)"
    by (cases "fuzzy_scan n D keys") auto
  with fuzzy_scan_invariant[where n=n and D=D and keys=keys] obtain i where "best_at n D keys i"
    by (auto split: option.splits)
  then have "i < length keys" "levenshteinDistance n (keys ! i) \<le> D"
    by (simp_all add: best_at_def)
  with far show False using nth_mem by fastforce
qed

lemma fuzzy_scan_some:
  assumes "\<exists>k\<in>set keys. levenshteinDistance n k \<le> D"
  shows "\<exists>i. best_at n D keys i \<and> fst (fuzzy_scan n D keys) = Some (keys ! i)"
proof -
  obtain b m where acc: "fuzzy_scan n D keys = (b, m)" by (cases "fuzzy_scan n D keys")
  show ?thesis
  proof (cases b)
    case None
    with acc fuzzy_scan_invariant[where n=n and D=D and keys=keys] have "\<forall>k\<in>set keys. D < levenshteinDistance n k"
      by (auto split: option.splits)
    with assms show ?thesis by fastforce
  next
    case (Some k)
    with acc fuzzy_scan_invariant[where n=n and D=D and keys=keys] show ?thesis
      by (auto split: option.splits)
  qed
qed

lemma lookup_nonempty: "index_ok idx \<Longrightarrow> lookup idx c \<noteq> Some []"
  by (auto simp: lookup_def Let_def index_ok_def split: option.splits if_splits)

text \<open>
  Claim C4. For every list of scored tags and every target language, the output of
  \<^verbatim>\<open>normalizeTags\<close> is no longer than the input and holds no name twice. It is the
  input read at a strictly increasing list \<open>ks\<close> of positions (so the relative order
  is kept), each tag with its name replaced by the canonical form the lookup returns
  and every other field, the score among them, as it was. A position is in \<open>ks\<close> only
  if its tag resolves and no earlier tag resolves to the same canonical form (first
  occurrence); unresolvable tags are at no position of \<open>ks\<close>; and every canonical form
  some input tag resolves to is the name of an output entry.
\<close>

theorem normalizeTags_first_occurrences:
  "length (normalizeTags csv raw targetLang) \<le> length raw
   \<and> distinct (map name (normalizeTags csv raw targetLang))
   \<and> (\<exists>ks. sorted_wrt (<) ks
          \<and> (\<forall>k\<in>set ks. k < length raw \<and>
                (\<exists>c. createTagLookup csv targetLang (name (raw ! k)) = Some c \<and>
                   (\<forall>j<k. createTagLookup csv targetLang (name (raw ! j)) \<noteq> Some c)))
          \<and> normalizeTags csv raw targetLang
                = map (\<lambda>k. (raw ! k)\<lparr>name := the (createTagLookup csv targetLang (name (raw ! k)))\<rparr>) ks
          \<and> (\<forall>j<length raw. \<forall>c. createTagLookup csv targetLang (name (raw ! j)) = Some c \<longrightarrow>
                (\<exists>k\<in>set ks. createTagLookup csv targetLang (name (raw ! k)) = Some c)))"
proof -
  let ?lk = "createTagLookup csv targetLang"
  have out: "normalizeTags csv raw targetLang = drop_seen {} (List.map_filter (normalize_one ?lk) raw)"
    by (simp add: normalizeTags_def Let_def)
  have ne: "?lk x \<noteq> Some []" for x
    unfolding createTagLookup_def by (rule lookup_nonempty[OF build_index_ok])
  have 1: "length (normalizeTags csv raw targetLang) \<le> length raw"
    unfolding out using drop_seen_length[of "{}" "List.map_filter (normalize_one ?lk) raw"]
      map_filter_length[of "normalize_one ?lk" raw] by linarith
  have 2: "distinct (map name (normalizeTags csv raw targetLang))"
    unfolding out by (rule drop_seen_distinct)
  from first_occurrences[where lk="?lk" and raw=raw and seen="{}"] obtain ks where ks:
    "sorted_wrt (<) ks"
    "\<forall>k\<in>set ks. k < length raw \<and>
        (\<exists>c. ?lk (name (raw ! k)) = Some c \<and> c \<noteq> [] \<and> c \<notin> {} \<and>
           (\<forall>j<k. ?lk (name (raw ! j)) \<noteq> Some c))"
    "drop_seen {} (List.map_filter (normalize_one ?lk) raw)
       = map (\<lambda>k. (raw ! k)\<lparr>name := the (?lk (name (raw ! k)))\<rparr>) ks"
    "\<forall>j<length raw. \<forall>c. ?lk (name (raw ! j)) = Some c \<and> c \<noteq> [] \<and> c \<notin> {} \<longrightarrow>
        (\<exists>k\<in>set ks. ?lk (name (raw ! k)) = Some c)"
    by blast
  have 3: "\<forall>k\<in>set ks. k < length raw \<and>
          (\<exists>c. ?lk (name (raw ! k)) = Some c \<and> (\<forall>j<k. ?lk (name (raw ! j)) \<noteq> Some c))"
    using ks(2) by blast
  have 4: "\<forall>j<length raw. \<forall>c. ?lk (name (raw ! j)) = Some c \<longrightarrow>
          (\<exists>k\<in>set ks. ?lk (name (raw ! k)) = Some c)"
  proof (intro allI impI)
    fix j c assume j: "j < length raw" and c: "?lk (name (raw ! j)) = Some c"
    from c ne[of "name (raw ! j)"] have "c \<noteq> []" by auto
    with ks(4) j c show "\<exists>k\<in>set ks. ?lk (name (raw ! k)) = Some c" by blast
  qed
  from ks(1) 3 ks(3) 4 have
    "\<exists>ks. sorted_wrt (<) ks
        \<and> (\<forall>k\<in>set ks. k < length raw \<and>
              (\<exists>c. ?lk (name (raw ! k)) = Some c \<and> (\<forall>j<k. ?lk (name (raw ! j)) \<noteq> Some c)))
        \<and> normalizeTags csv raw targetLang
              = map (\<lambda>k. (raw ! k)\<lparr>name := the (?lk (name (raw ! k)))\<rparr>) ks
        \<and> (\<forall>j<length raw. \<forall>c. ?lk (name (raw ! j)) = Some c \<longrightarrow>
              (\<exists>k\<in>set ks. ?lk (name (raw ! k)) = Some c))"
    unfolding out by blast
  with 1 2 show ?thesis by blast
qed

text \<open>
  The theorem at the two-column example dataset and four raw tags: the last tag,
  \<open>feline\<close>, resolves to \<open>Cat\<close>, so \<open>Cat\<close> is a name of the output.
\<close>

theorem normalizeTags_first_occurrences_witness:
  "length (normalizeTags simple_csv example_tags SC) \<le> 4
   \<and> distinct (map name (normalizeTags simple_csv example_tags SC))
   \<and> ''Cat'' \<in> name ` set (normalizeTags simple_csv example_tags SC)"
proof -
  let ?lk = "createTagLookup simple_csv SC"
  let ?out = "normalizeTags simple_csv example_tags SC"
  have len: "length example_tags = 4" by (simp add: example_tags_def)
  have hit: "?lk (name (example_tags ! 3)) = Some ''Cat''" by code_simp
  from normalizeTags_first_occurrences[of simple_csv example_tags SC] len
  obtain ks where a: "length ?out \<le> 4" and b: "distinct (map name ?out)"
    and out: "?out = map (\<lambda>k. (example_tags ! k)\<lparr>name := the (?lk (name (example_tags ! k)))\<rparr>) ks"
    and all: "\<forall>j<4. \<forall>c. ?lk (name (example_tags ! j)) = Some c \<longrightarrow>
                (\<exists>k\<in>set ks. ?lk (name (example_tags ! k)) = Some c)"
    by auto
  from all[rule_format, of 3 "''Cat''"] hit
  obtain k where k: "k \<in> set ks" "?lk (name (example_tags ! k)) = Some ''Cat''"
    by auto
  have "name ((example_tags ! k)\<lparr>name := the (?lk (name (example_tags ! k)))\<rparr>) = ''Cat''"
    using k(2) by simp
  moreover have "(example_tags ! k)\<lparr>name := the (?lk (name (example_tags ! k)))\<rparr> \<in> set ?out"
    using k(1) by (subst out) simp
  ultimately have "''Cat'' \<in> name ` set ?out" by (metis imageI)
  with a b show ?thesis by blast
qed

subsection \<open>The lookup\<close>

lemma index_keys_dom: "index_ok idx \<Longrightarrow> k \<in> set (validKeys idx) \<longleftrightarrow> lookupMap idx k \<noteq> None"
  by (auto simp: index_ok_def)

text \<open>
  Claim C2, as the code has it. Let \<open>n\<close> be the candidate lower-cased and trimmed,
  \<open>D\<close> the threshold for the length of \<open>n\<close> (0 below 4, 2 from 4 to 7, 3 from 8 on)
  and \<open>keys\<close> the registered keys in registration order. For a non-empty candidate:
  if \<open>n\<close> is a key of the map, the lookup returns the value of \<open>n\<close>; otherwise, if no
  key is within distance \<open>D\<close> of \<open>n\<close> the lookup returns not-found, and if some key
  is, it returns the value of the key at the position \<open>i\<close> with \<open>best_at n D keys i\<close>
  (smallest distance within the threshold, the first such key on a tie), which is a
  value and not not-found. Consequently every candidate whose form \<open>n\<close> is shorter than
  4 and is not a registered key resolves to not-found.
\<close>

theorem lookup_resolution:
  "let idx = build_index targetLang csv;
       n = trim (toLowerCase c);
       D = (if length n < 4 then 0 else if length n < 8 then 2 else 3);
       keys = validKeys idx
   in (c \<noteq> [] \<longrightarrow> (\<forall>v. lookupMap idx n = Some v \<longrightarrow> createTagLookup csv targetLang c = Some v))
    \<and> (c \<noteq> [] \<and> lookupMap idx n = None \<longrightarrow>
          ((\<forall>k\<in>set keys. D < levenshteinDistance n k) \<longrightarrow> createTagLookup csv targetLang c = None)
        \<and> ((\<exists>k\<in>set keys. levenshteinDistance n k \<le> D) \<longrightarrow>
              (\<exists>i. best_at n D keys i
                 \<and> createTagLookup csv targetLang c = lookupMap idx (keys ! i)
                 \<and> createTagLookup csv targetLang c \<noteq> None)))
    \<and> (length n < 4 \<and> n \<notin> set keys \<longrightarrow> createTagLookup csv targetLang c = None)"
proof -
  define idx where "idx = build_index targetLang csv"
  define n where "n = trim (toLowerCase c)"
  define D :: int where "D = (if length n < 4 then 0 else if length n < 8 then 2 else 3)"
  define keys where "keys = validKeys idx"
  have ok: "index_ok idx" unfolding idx_def by (rule build_index_ok)
  have D: "maxDistance_of n = D" by (simp add: maxDistance_of_def D_def)
  have lk: "createTagLookup csv targetLang c = lookup idx c"
    by (simp add: createTagLookup_def idx_def)
  have exact: "lookup idx c = Some v" if "c \<noteq> []" "lookupMap idx n = Some v" for v
    using that by (simp add: lookup_def n_def)
  have fuzzy: "lookup idx c =
      (case fst (fuzzy_scan n D keys) of None \<Rightarrow> None
       | Some b \<Rightarrow> if b = [] then None else lookupMap idx b)"
    if "c \<noteq> []" "lookupMap idx n = None"
    using that D by (simp add: lookup_def n_def[symmetric] keys_def Let_def)
  have far: "lookup idx c = None"
    if "c \<noteq> []" "lookupMap idx n = None" "\<forall>k\<in>set keys. D < levenshteinDistance n k"
    using fuzzy[OF that(1,2)] fuzzy_scan_none[OF that(3)] by simp
  have near: "\<exists>i. best_at n D keys i \<and> lookup idx c = lookupMap idx (keys ! i) \<and> lookup idx c \<noteq> None"
    if "c \<noteq> []" "lookupMap idx n = None" "\<exists>k\<in>set keys. levenshteinDistance n k \<le> D"
  proof -
    from fuzzy_scan_some[OF that(3)] obtain i where
      i: "best_at n D keys i" "fst (fuzzy_scan n D keys) = Some (keys ! i)" by blast
    from i(1) have "i < length keys" by (simp add: best_at_def)
    then have mem: "keys ! i \<in> set (validKeys idx)" by (simp add: keys_def)
    with ok have "keys ! i \<noteq> []" "lookupMap idx (keys ! i) \<noteq> None"
      by (auto simp: index_ok_def)
    with fuzzy[OF that(1,2)] i show ?thesis by auto
  qed
  have short: "lookup idx c = None" if "length n < 4" "n \<notin> set keys"
  proof (cases "c = []")
    case True
    then show ?thesis by (simp add: lookup_def)
  next
    case False
    from that(2) ok have none: "lookupMap idx n = None"
      by (simp add: keys_def index_keys_dom)
    have D0: "D = 0" using that(1) by (simp add: D_def)
    have "\<forall>k\<in>set keys. D < levenshteinDistance n k"
    proof
      fix k assume "k \<in> set keys"
      with that(2) have "n \<noteq> k" by blast
      then have "levenshteinDistance n k \<noteq> 0" by (simp add: levenshteinDistance_zero)
      moreover have "0 \<le> levenshteinDistance n k" by (simp add: levenshteinDistance_ed)
      ultimately show "D < levenshteinDistance n k" using D0 by simp
    qed
    with far[OF False none] show ?thesis by blast
  qed
  have 1: "c \<noteq> [] \<longrightarrow> (\<forall>v. lookupMap idx n = Some v \<longrightarrow> lookup idx c = Some v)"
    using exact by blast
  have 2: "c \<noteq> [] \<and> lookupMap idx n = None \<longrightarrow>
          ((\<forall>k\<in>set keys. D < levenshteinDistance n k) \<longrightarrow> lookup idx c = None)
        \<and> ((\<exists>k\<in>set keys. levenshteinDistance n k \<le> D) \<longrightarrow>
              (\<exists>i. best_at n D keys i
                 \<and> lookup idx c = lookupMap idx (keys ! i)
                 \<and> lookup idx c \<noteq> None))"
  proof (intro impI conjI)
    assume a: "c \<noteq> [] \<and> lookupMap idx n = None"
    { assume "\<forall>k\<in>set keys. D < levenshteinDistance n k"
      with a show "lookup idx c = None" using far by blast }
    { assume "\<exists>k\<in>set keys. levenshteinDistance n k \<le> D"
      with a show "\<exists>i. best_at n D keys i
                 \<and> lookup idx c = lookupMap idx (keys ! i)
                 \<and> lookup idx c \<noteq> None" using near by blast }
  qed
  have 3: "length n < 4 \<and> n \<notin> set keys \<longrightarrow> lookup idx c = None"
    using short by blast
  from 1 2 3 show ?thesis
    unfolding Let_def lk idx_def[symmetric] n_def[symmetric] D_def[symmetric] keys_def[symmetric]
    by (intro conjI)
qed

text \<open>
  The theorem at the two-column example dataset: \<open>CAT\<close> matches the key \<open>cat\<close>
  exactly, \<open>actoin\<close> is within distance 2 of the key \<open>action\<close>, no key is within
  distance 2 of \<open>xyzzyx\<close>, and \<open>cot\<close> is short and not a key.
\<close>

theorem lookup_resolution_witness:
  "createTagLookup simple_csv EN ''CAT'' = Some ''Cat''
   \<and> createTagLookup simple_csv EN ''actoin'' \<noteq> None
   \<and> createTagLookup simple_csv EN ''xyzzyx'' = None
   \<and> createTagLookup simple_csv EN ''cot'' = None"
proof -
  let ?idx = "build_index EN simple_csv"
  have keys: "validKeys ?idx = [''action'', ''scene of action'', ''cat'', ''feline'']"
    by code_simp
  have a: "lookupMap ?idx (trim (toLowerCase ''CAT'')) = Some ''Cat''" by code_simp
  have b1: "lookupMap ?idx (trim (toLowerCase ''actoin'')) = None" by code_simp
  have b2: "levenshteinDistance (trim (toLowerCase ''actoin'')) ''action'' \<le> 2" by code_simp
  have b3: "length (trim (toLowerCase ''actoin'')) = 6" by code_simp
  have c1: "lookupMap ?idx (trim (toLowerCase ''xyzzyx'')) = None" by code_simp
  have c2: "\<forall>k\<in>set (validKeys ?idx). 2 < levenshteinDistance (trim (toLowerCase ''xyzzyx'')) k"
    unfolding keys by code_simp
  have c3: "length (trim (toLowerCase ''xyzzyx'')) = 6" by code_simp
  have d1: "length (trim (toLowerCase ''cot'')) < 4" by code_simp
  have d2: "trim (toLowerCase ''cot'') \<notin> set (validKeys ?idx)" unfolding keys by code_simp
  have A: "createTagLookup simple_csv EN ''CAT'' = Some ''Cat''"
    using lookup_resolution[of EN simple_csv "''CAT''"] a by (simp add: Let_def)
  have B: "createTagLookup simple_csv EN ''actoin'' \<noteq> None"
    using lookup_resolution[of EN simple_csv "''actoin''"] b1 b2 b3 keys
    by (simp add: Let_def) blast
  have C: "createTagLookup simple_csv EN ''xyzzyx'' = None"
    using lookup_resolution[of EN simple_csv "''xyzzyx''"] c1 c2 c3 by (simp add: Let_def)
  have D: "createTagLookup simple_csv EN ''cot'' = None"
    using lookup_resolution[of EN simple_csv "''cot''"] d1 d2 by (simp add: Let_def)
  from A B C D show ?thesis by blast
qed

text \<open>
  Claim C2 as stated fails in its two uses of the candidate itself. The candidate
  \<open>CAT\<close> has length 3 and is not, verbatim, among the registered keys (the key is
  \<open>cat\<close>), yet it resolves to \<open>Cat\<close> by the case-insensitive exact match. The
  candidate \<open>felxyz\<close> after two spaces has length 8, and the key \<open>feline\<close> is at
  distance 3 from its lower-cased, trimmed form, which is within the threshold 3 the
  claim gives a candidate of length 8; the code takes the threshold from the trimmed
  form of length 6, which is 2, and returns not-found.
\<close>

theorem lookup_short_candidate_counterexample:
  "length ''CAT'' < 4
   \<and> ''CAT'' \<notin> set (validKeys (build_index EN simple_csv))
   \<and> createTagLookup simple_csv EN ''CAT'' = Some ''Cat''
   \<and> length ''  felxyz'' = 8
   \<and> levenshteinDistance (trim (toLowerCase ''  felxyz'')) ''feline'' = 3
   \<and> lookupMap (build_index EN simple_csv) ''feline'' = Some ''Cat''
   \<and> createTagLookup simple_csv EN ''  felxyz'' = None"
  by code_simp


subsection \<open>The construction of the index\<close>

lemma validKeys_register [simp]: "validKeys (register k v idx) = validKeys idx @ [k]"
  by (simp add: register_def)

lemma lookupMap_register [simp]: "lookupMap (register k v idx) = (lookupMap idx)(k \<mapsto> v)"
  by (simp add: register_def)

lemma validKeys_index_line:
  "validKeys (index_line targetLang line idx)
     = validKeys idx @ validKeys (index_line targetLang line empty_index)"
  by (simp add: index_line_def Let_def empty_index_def)

lemma validKeys_fold_index_line:
  "validKeys (fold (index_line targetLang) ls idx)
     = validKeys idx @ concat (map (\<lambda>l. validKeys (index_line targetLang l empty_index)) ls)"
proof (induction ls arbitrary: idx)
  case Nil
  show ?case by simp
next
  case (Cons l ls)
  show ?case
    using Cons[of "index_line targetLang l idx"] validKeys_index_line[of targetLang l idx]
    by simp
qed


text \<open>
  Claim C3, as the code has it. The index is built row by row: the keys of the index
  are the keys of its data rows (the lines after the header line), one row after the
  other, each row indexed on its own; so the format of a row is decided by the column
  count of that row and not by the first data line. A row of fewer than 2 columns
  registers nothing. A row of exactly 2 columns is in the simple format: a non-empty
  tag registers itself, lower-cased, and its definition when there is one, both mapping
  to the tag. A row of more than 2 columns is multilingual, with \<open>tv\<close> its value in the
  requested target language: if \<open>tv\<close> is empty the row registers nothing; otherwise
  the non-empty English variant is registered lower-cased, a non-empty simplified or
  traditional variant that holds no upper-case letter is registered, every key the row
  registers maps to \<open>tv\<close>, and no other key changes its value. The description column
  is not read.
\<close>

theorem index_rows:
  "validKeys (build_index targetLang csv)
     = concat (map (\<lambda>l. validKeys (index_line targetLang l empty_index)) (data_lines csv))
   \<and> (let parts = split_on CHR '','' line;
           tag = trim (parts ! 0); defn = trim (parts ! 1);
           en = trim (parts ! 0); sc = trim (parts ! 1); tc = trim (parts ! 2);
           tv = (case targetLang of EN \<Rightarrow> en | SC \<Rightarrow> sc | TC \<Rightarrow> tc);
           idx' = index_line targetLang line idx;
           new = drop (length (validKeys idx)) (validKeys idx')
       in (length parts < 2 \<longrightarrow> idx' = idx)
        \<and> (length parts = 2 \<longrightarrow>
              (tag = [] \<longrightarrow> idx' = idx)
            \<and> (tag \<noteq> [] \<longrightarrow>
                  validKeys idx'
                    = validKeys idx @ [toLowerCase tag] @ (if defn = [] then [] else [toLowerCase defn])
                \<and> (\<forall>k\<in>set new. lookupMap idx' k = Some tag)))
        \<and> (2 < length parts \<and> tv = [] \<longrightarrow> idx' = idx)
        \<and> (2 < length parts \<and> tv \<noteq> [] \<longrightarrow>
              (en \<noteq> [] \<longrightarrow>
                 toLowerCase en \<in> set (validKeys idx') \<and> lookupMap idx' (toLowerCase en) = Some tv)
            \<and> (\<forall>v\<in>{sc, tc}. v \<noteq> [] \<and> toLowerCase v = v \<longrightarrow>
                  v \<in> set (validKeys idx') \<and> lookupMap idx' v = Some tv)
            \<and> (\<forall>k\<in>set new. lookupMap idx' k = Some tv)
            \<and> (\<forall>k. k \<notin> set new \<longrightarrow> lookupMap idx' k = lookupMap idx k)))"
proof (intro conjI)
  show "validKeys (build_index targetLang csv)
     = concat (map (\<lambda>l. validKeys (index_line targetLang l empty_index)) (data_lines csv))"
    unfolding build_index_def
    using validKeys_fold_index_line[of targetLang "data_lines csv" empty_index]
    by (simp add: empty_index_def)
  show "let parts = split_on CHR '','' line;
           tag = trim (parts ! 0); defn = trim (parts ! 1);
           en = trim (parts ! 0); sc = trim (parts ! 1); tc = trim (parts ! 2);
           tv = (case targetLang of EN \<Rightarrow> en | SC \<Rightarrow> sc | TC \<Rightarrow> tc);
           idx' = index_line targetLang line idx;
           new = drop (length (validKeys idx)) (validKeys idx')
       in (length parts < 2 \<longrightarrow> idx' = idx)
        \<and> (length parts = 2 \<longrightarrow>
              (tag = [] \<longrightarrow> idx' = idx)
            \<and> (tag \<noteq> [] \<longrightarrow>
                  validKeys idx'
                    = validKeys idx @ [toLowerCase tag] @ (if defn = [] then [] else [toLowerCase defn])
                \<and> (\<forall>k\<in>set new. lookupMap idx' k = Some tag)))
        \<and> (2 < length parts \<and> tv = [] \<longrightarrow> idx' = idx)
        \<and> (2 < length parts \<and> tv \<noteq> [] \<longrightarrow>
              (en \<noteq> [] \<longrightarrow>
                 toLowerCase en \<in> set (validKeys idx') \<and> lookupMap idx' (toLowerCase en) = Some tv)
            \<and> (\<forall>v\<in>{sc, tc}. v \<noteq> [] \<and> toLowerCase v = v \<longrightarrow>
                  v \<in> set (validKeys idx') \<and> lookupMap idx' v = Some tv)
            \<and> (\<forall>k\<in>set new. lookupMap idx' k = Some tv)
            \<and> (\<forall>k. k \<notin> set new \<longrightarrow> lookupMap idx' k = lookupMap idx k))"
    unfolding Let_def index_line_def
    by (cases targetLang) auto
qed

text \<open>
  The theorem at the row \<open>Action,dongzuo,dongzuo2,,fight\<close> with the simplified names as
  the target language, added to the empty index: the row has 5 columns and a target
  value, so \<open>action\<close> and \<open>dongzuo\<close> are keys and both map to \<open>dongzuo\<close>.
\<close>

theorem index_rows_witness:
  "''action'' \<in> set (validKeys (index_line SC ''Action,dongzuo,dongzuo2,,fight'' empty_index))
   \<and> lookupMap (index_line SC ''Action,dongzuo,dongzuo2,,fight'' empty_index) ''action'' = Some ''dongzuo''
   \<and> ''dongzuo'' \<in> set (validKeys (index_line SC ''Action,dongzuo,dongzuo2,,fight'' empty_index))
   \<and> lookupMap (index_line SC ''Action,dongzuo,dongzuo2,,fight'' empty_index) ''dongzuo'' = Some ''dongzuo''"
proof -
  let ?line = "''Action,dongzuo,dongzuo2,,fight''"
  have parts: "split_on CHR '','' ?line = [''Action'', ''dongzuo'', ''dongzuo2'', [], ''fight'']"
    by code_simp
  have t: "trim ''Action'' = ''Action''" "trim ''dongzuo'' = ''dongzuo''"
    "trim ''dongzuo2'' = ''dongzuo2''"
    by code_simp+
  have l: "toLowerCase ''Action'' = ''action''" "toLowerCase ''dongzuo'' = ''dongzuo''"
    by code_simp+
  from index_rows[of SC "[]" ?line empty_index] show ?thesis
    unfolding Let_def parts by (simp add: t l)
qed

text \<open>
  Claim C3 as stated fails on \<^verbatim>\<open>createTagLookup\<close> in two places. The only data row
  of the first dataset has 5 columns and an empty description (column 4), yet the row
  registers the key \<open>action\<close>. The first data line of the second dataset has exactly 2
  columns, yet the row of 5 columns that follows is indexed as a multilingual row:
  \<open>action\<close> resolves to the simplified name, not to the tag itself as the simple format
  would have it. The hook \<^verbatim>\<open>useTagData\<close> does fix the format once (on the second
  dataset it reads the second column of every row as the definition) and does ask for
  a description, but its keys are not lower-cased and map to the description, not to a
  name in a target language.
\<close>

theorem index_rows_counterexample:
  "trim (split_on CHR '','' ''Action,,,,'' ! 4) = []
   \<and> validKeys (build_index EN no_description_csv) = [''action'']
   \<and> createTagLookup no_description_csv EN ''action'' = Some ''Action''
   \<and> length (split_on CHR '','' ''Cat,feline'') = 2
   \<and> createTagLookup mixed_csv SC ''action'' = Some ''dongzuo''
   \<and> tagMap (useTagData (Some mixed_csv)) ''Action'' = Some ''dongzuo''
   \<and> tagMap (useTagData (Some mixed_csv)) ''action'' = None"
  by code_simp

text \<open>
  A remark on the keys of the simplified and traditional columns: they are registered
  as they stand, while the lookup lower-cases the candidate. A short name with an
  upper-case letter in one of these columns is therefore a key that no candidate reaches,
  not even the name itself.
\<close>

lemma upper_case_key_unreachable:
  "validKeys (build_index TC (''h'' @ [newline] @ ''Netorare,,NTR,,desc'')) = [''netorare'', ''NTR'']
   \<and> createTagLookup (''h'' @ [newline] @ ''Netorare,,NTR,,desc'') TC ''NTR'' = None"
  by code_simp

section \<open>Properties of the retry wrapper\<close>

text \<open>
  What the wrapper does with an error depends on the message alone:
  \<open>terminal_message m\<close> is the test of the source for ``do not retry''.
\<close>

lemma withRetry_first_success:
  assumes "fn st = (Inr v, st')" "0 \<le> retries"
  shows "withRetry fn retries baseDelay backoffFactor st = (Inr v, st', [Attempt])"
  unfolding withRetry_def using assms by (subst withRetry_from.simps) simp

lemma withRetry_terminal:
  assumes "fn st = (Inl e, st')" "e \<noteq> Thrown_undefined" "0 \<le> retries"
    and "isAuthError (message e) \<or> isBadRequest (message e)"
  shows "withRetry fn retries baseDelay backoffFactor st = (Inl e, st', [Attempt])"
  unfolding withRetry_def using assms by (subst withRetry_from.simps) auto

text \<open>
  An operation that fails at every attempt with an error the wrapper does not take for
  an authentication failure or a bad request is attempted \<open>retries + 1\<close> times, with a
  wait of \<open>baseDelay * backoffFactor ^ i\<close> after the failure of attempt \<open>i\<close>, and ends
  in an error.
\<close>

lemma withRetry_from_exhausts:
  assumes "\<And>s. \<exists>e s'. fn s = (Inl e, s') \<and> e \<noteq> Thrown_undefined
                      \<and> \<not> isAuthError (message e) \<and> \<not> isBadRequest (message e)"
    and "0 \<le> attempt" "attempt \<le> retries"
  shows "\<exists>e s'. withRetry_from fn retries baseDelay backoffFactor attempt lastError st log
           = (Inl e, s',
              log @ concat (map (\<lambda>i. [Attempt, Wait (baseDelay * backoffFactor ^ i)])
                              [nat attempt..<nat retries]) @ [Attempt])"
  using assms
proof (induction fn retries baseDelay backoffFactor attempt lastError st log
        rule: withRetry_from.induct)
  case (1 fn retries baseDelay backoffFactor attempt lastError st log)
  from "1.prems"(1)[of st] obtain e s' where e: "fn st = (Inl e, s')" "e \<noteq> Thrown_undefined"
    "\<not> isAuthError (message e)" "\<not> isBadRequest (message e)" by blast
  show ?case
  proof (cases "attempt = retries")
    case True
    then show ?thesis using e "1.prems"(2,3) by (subst withRetry_from.simps) simp
  next
    case False
    with "1.prems"(3) have lt: "attempt < retries" by simp
    have suc: "nat (attempt + 1) = Suc (nat attempt)"
      using "1.prems"(2) by (simp add: nat_add_distrib)
    have "nat attempt < nat retries"
      using lt "1.prems"(2) by simp
    then have upt: "[nat attempt..<nat retries] = nat attempt # [nat (attempt + 1)..<nat retries]"
      unfolding suc by (rule upt_conv_Cons)
    have "\<exists>e2 s2.
      withRetry_from fn retries baseDelay backoffFactor (attempt + 1) e s'
          (log @ [Attempt, Wait (baseDelay * backoffFactor ^ nat attempt)])
        = (Inl e2, s2,
           (log @ [Attempt, Wait (baseDelay * backoffFactor ^ nat attempt)])
             @ concat (map (\<lambda>i. [Attempt, Wait (baseDelay * backoffFactor ^ i)])
                         [nat (attempt + 1)..<nat retries]) @ [Attempt])"
    proof (rule "1.IH")
      show "attempt \<le> retries" by (rule "1.prems"(3))
      show "(Inl e, s') = fn st" using e(1) by simp
      show "Inl e = Inl e" by (rule refl)
      show "e \<noteq> Thrown_undefined" by (rule e(2))
      show "\<not> (isAuthError (message e) \<or> isBadRequest (message e))" using e(3,4) by simp
      show "attempt \<noteq> retries" by (rule False)
      show "\<exists>e s'. fn s = (Inl e, s') \<and> e \<noteq> Thrown_undefined
                      \<and> \<not> isAuthError (message e) \<and> \<not> isBadRequest (message e)" for s
        by (rule "1.prems"(1))
      show "0 \<le> attempt + 1" using "1.prems"(2) by simp
      show "attempt + 1 \<le> retries" using lt by simp
    qed
    then show ?thesis
      using e False "1.prems"(2,3) by (subst withRetry_from.simps) (simp add: upt)
  qed
qed

text \<open>
  Claim C1 fails on the code: the wrapper has no branch for a cancellation. With the
  signal fired, every attempt of \<^verbatim>\<open>performGeneration\<close> throws the \<open>AbortError\<close> of the
  source, whose message \<open>Aborted\<close> is neither taken for an authentication failure nor
  for a bad request; the wrapper makes all four attempts and takes the three waits, and
  the error leaves it by the exhausted path. The same happens when the signal fires
  during the first request.
\<close>

theorem withRetry_retries_cancellation:
  "withRetry_default (gemini_performGeneration ai req) \<lparr>requests = n, signal_aborted = True\<rparr>
     = (Inl AbortError, \<lparr>requests = n, signal_aborted = True\<rparr>,
        [Attempt, Wait 1000, Attempt, Wait 2000, Attempt, Wait 4000, Attempt])
   \<and> withRetry_default (gemini_performGeneration (\<lambda>k r. (Inr ''{}'', True)) req)
        \<lparr>requests = 0, signal_aborted = False\<rparr>
     = (Inl AbortError, \<lparr>requests = 1, signal_aborted = True\<rparr>,
        [Attempt, Wait 1000, Attempt, Wait 2000, Attempt, Wait 4000, Attempt])"
proof -
  have m: "\<not> isAuthError (message AbortError)" "\<not> isBadRequest (message AbortError)"
    "AbortError \<noteq> Thrown_undefined"
    by (simp_all add: AbortError_def isAuthError_def isBadRequest_def)
  have fired: "gemini_performGeneration a req \<lparr>requests = k, signal_aborted = True\<rparr>
      = (Inl AbortError, \<lparr>requests = k, signal_aborted = True\<rparr>)" for a k
    by (simp add: gemini_performGeneration_def)
  have tail: "withRetry_from (gemini_performGeneration a req) 3 1000 2 1 e
        \<lparr>requests = k, signal_aborted = True\<rparr> [Attempt, Wait 1000]
      = (Inl AbortError, \<lparr>requests = k, signal_aborted = True\<rparr>,
         [Attempt, Wait 1000, Attempt, Wait 2000, Attempt, Wait 4000, Attempt])" for a k e
    apply (subst withRetry_from.simps, simp add: fired m)
    apply (subst withRetry_from.simps, simp add: fired m)
    apply (subst withRetry_from.simps, simp add: fired m)
    done
  have 1: "withRetry_default (gemini_performGeneration ai req) \<lparr>requests = n, signal_aborted = True\<rparr>
     = (Inl AbortError, \<lparr>requests = n, signal_aborted = True\<rparr>,
        [Attempt, Wait 1000, Attempt, Wait 2000, Attempt, Wait 4000, Attempt])"
    unfolding withRetry_default_def withRetry_def
    by (subst withRetry_from.simps) (simp add: fired m tail)
  have first: "gemini_performGeneration (\<lambda>k r. (Inr ''{}'', True)) req
        \<lparr>requests = 0, signal_aborted = False\<rparr>
      = (Inl AbortError, \<lparr>requests = 1, signal_aborted = True\<rparr>)"
    by (simp add: gemini_performGeneration_def)
  have 2: "withRetry_default (gemini_performGeneration (\<lambda>k r. (Inr ''{}'', True)) req)
        \<lparr>requests = 0, signal_aborted = False\<rparr>
     = (Inl AbortError, \<lparr>requests = 1, signal_aborted = True\<rparr>,
        [Attempt, Wait 1000, Attempt, Wait 2000, Attempt, Wait 4000, Attempt])"
    unfolding withRetry_default_def withRetry_def
    by (subst withRetry_from.simps) (simp add: first m tail)
  from 1 2 show ?thesis by blast
qed

text \<open>
  Claim C6 fails on the code, which classifies an error by substrings of its message.
  The REST provider reports a status 401 as \<open>Auth failed:\<close> followed by the message of
  the server; when that message names neither the status nor an API key, the wrapper
  does not take the error for an authentication failure and makes all four attempts. A
  rate-limit error whose message holds the digits 400 is taken for a bad request and
  surfaces after the first attempt.
\<close>

theorem withRetry_misclassifies:
  "withRetry_default
      (openai_performGeneration
         (\<lambda>k r. Inr \<lparr>status = 401, errorMessage = ''Unauthorized'', content = []\<rparr>) req) 0
     = (Inl (Error ''Auth failed: Unauthorized''), 4,
        [Attempt, Wait 1000, Attempt, Wait 2000, Attempt, Wait 4000, Attempt])
   \<and> withRetry_default
      (openai_performGeneration
         (\<lambda>k r. Inr \<lparr>status = 429, errorMessage = ''Limit 30000, Used 24000'', content = []\<rparr>) req) 0
     = (Inl (Error ''Rate limit exceeded (429): Limit 30000, Used 24000''), 1, [Attempt])"
  by code_simp

section \<open>The library text and the normalized tags\<close>

lemma gemini_performGeneration_same_answers:
  assumes "\<And>k. ai k req1 = ai k req2"
  shows "gemini_performGeneration ai req1 = gemini_performGeneration ai req2"
  by (rule ext) (simp add: gemini_performGeneration_def assms)

lemma gemini_postprocess_tags:
  assumes "gemini_postprocess csv parse settings rawText = Inr r"
  shows "\<exists>parsed raw. parse rawText = Some parsed \<and> pj_tags parsed = Some raw
           \<and> tags r = normalizeTags csv raw (language_of settings)"
  using assms
  by (auto simp: gemini_postprocess_def split: if_splits option.splits)

lemma openai_performGeneration_same_answers:
  assumes "\<And>k. fetch k req1 = fetch k req2"
  shows "openai_performGeneration fetch req1 = openai_performGeneration fetch req2"
  by (rule ext) (simp add: openai_performGeneration_def assms)

lemma openai_postprocess_tags:
  assumes "openai_postprocess csv parse settings rawText = Inr r"
  shows "\<exists>parsed raw. parse rawText = Some parsed \<and> pj_tags parsed = Some raw
           \<and> tags r = normalizeTags csv raw (language_of settings)"
  using assms
  by (auto simp: openai_postprocess_def split: if_splits option.splits)

text \<open>
  Claim C9. The text of the tag library that is passed to \<^verbatim>\<open>generateTags\<close> reaches the
  request (it is the field \<open>req_tagLibraryCsv\<close> of what is sent) and nothing else: two
  calls that differ in that text only and get the same answers from the backend return
  the same result, and the tags of a result are \<^verbatim>\<open>normalizeTags\<close> of the raw tags
  of the parsed answer, computed from the dataset \<open>csv\<close> of the module and the target
  language of the settings. This holds for the cloud-native provider and for the REST
  provider.
\<close>

theorem generateTags_library_text:
  "req_tagLibraryCsv (gemini_request img mime lib settings pinned excluded) = lib
   \<and> ((\<forall>k. ai k (gemini_request img mime lib1 settings pinned excluded)
             = ai k (gemini_request img mime lib2 settings pinned excluded)) \<longrightarrow>
        gemini_generateTags csv ai parse img mime lib1 settings pinned excluded st
          = gemini_generateTags csv ai parse img mime lib2 settings pinned excluded st)
   \<and> (\<forall>r st' log.
         gemini_generateTags csv ai parse img mime lib settings pinned excluded st = (Inr r, st', log)
         \<longrightarrow> (\<exists>rawText parsed raw. parse rawText = Some parsed \<and> pj_tags parsed = Some raw
                \<and> tags r = normalizeTags csv raw (language_of settings)))
   \<and> req_tagLibraryCsv (openai_request model img lib settings pinned excluded) = lib
   \<and> ((\<forall>k. fetch k (openai_request model img lib1 settings pinned excluded)
             = fetch k (openai_request model img lib2 settings pinned excluded)) \<longrightarrow>
        openai_generateTags csv fetch parse model img lib1 settings pinned excluded n
          = openai_generateTags csv fetch parse model img lib2 settings pinned excluded n)
   \<and> (\<forall>r n' log.
         openai_generateTags csv fetch parse model img lib settings pinned excluded n = (Inr r, n', log)
         \<longrightarrow> (\<exists>rawText parsed raw. parse rawText = Some parsed \<and> pj_tags parsed = Some raw
                \<and> tags r = normalizeTags csv raw (language_of settings)))"
proof (intro conjI impI allI)
  show "req_tagLibraryCsv (gemini_request img mime lib settings pinned excluded) = lib"
    by (simp add: gemini_request_def)
next
  assume "\<forall>k. ai k (gemini_request img mime lib1 settings pinned excluded)
             = ai k (gemini_request img mime lib2 settings pinned excluded)"
  then have "gemini_performGeneration ai (gemini_request img mime lib1 settings pinned excluded)
      = gemini_performGeneration ai (gemini_request img mime lib2 settings pinned excluded)"
    by (intro gemini_performGeneration_same_answers) simp
  then show "gemini_generateTags csv ai parse img mime lib1 settings pinned excluded st
          = gemini_generateTags csv ai parse img mime lib2 settings pinned excluded st"
    by (simp add: gemini_generateTags_def)
next
  fix r st' log
  assume run: "gemini_generateTags csv ai parse img mime lib settings pinned excluded st
      = (Inr r, st', log)"
  then obtain rawText where "gemini_postprocess csv parse settings rawText = Inr r"
    by (auto simp: gemini_generateTags_def split: prod.splits sum.splits)
  from gemini_postprocess_tags[OF this]
  show "\<exists>rawText parsed raw. parse rawText = Some parsed \<and> pj_tags parsed = Some raw
          \<and> tags r = normalizeTags csv raw (language_of settings)"
    by blast
next
  show "req_tagLibraryCsv (openai_request model img lib settings pinned excluded) = lib"
    by (simp add: openai_request_def)
next
  assume "\<forall>k. fetch k (openai_request model img lib1 settings pinned excluded)
             = fetch k (openai_request model img lib2 settings pinned excluded)"
  then have "openai_performGeneration fetch (openai_request model img lib1 settings pinned excluded)
      = openai_performGeneration fetch (openai_request model img lib2 settings pinned excluded)"
    by (intro openai_performGeneration_same_answers) simp
  then show "openai_generateTags csv fetch parse model img lib1 settings pinned excluded n
          = openai_generateTags csv fetch parse model img lib2 settings pinned excluded n"
    by (simp add: openai_generateTags_def)
next
  fix r n' log
  assume run: "openai_generateTags csv fetch parse model img lib settings pinned excluded n
      = (Inr r, n', log)"
  then obtain rawText where "openai_postprocess csv parse settings rawText = Inr r"
    by (auto simp: openai_generateTags_def split: prod.splits sum.splits)
  from openai_postprocess_tags[OF this]
  show "\<exists>rawText parsed raw. parse rawText = Some parsed \<and> pj_tags parsed = Some raw
          \<and> tags r = normalizeTags csv raw (language_of settings)"
    by blast
qed

text \<open>
  The theorem at the example dataset, a backend that answers every request alike and
  two library texts: the call with the second text returns what the call with the
  first returns, a result whose tags are the normalized example tags.
\<close>

theorem generateTags_library_text_witness:
  "gemini_generateTags simple_csv constant_backend example_parse ''img'' ''image/png'' ''two''
       example_settings None None \<lparr>requests = 0, signal_aborted = False\<rparr>
     = (Inr \<lparr>description = ''a cover'', tags = normalizeTags simple_csv example_tags EN\<rparr>,
        \<lparr>requests = 1, signal_aborted = False\<rparr>, [Attempt])"
proof -
  let ?st = "\<lparr>requests = 0, signal_aborted = False\<rparr>"
  let ?r = "\<lparr>description = ''a cover'', tags = normalizeTags simple_csv example_tags EN\<rparr>"
  have same: "\<forall>k. constant_backend k
        (gemini_request ''img'' ''image/png'' ''one'' example_settings None None)
      = constant_backend k
        (gemini_request ''img'' ''image/png'' ''two'' example_settings None None)"
    by (simp add: constant_backend_def)
  have lang: "language_of example_settings = EN"
    by (simp add: language_of_def example_settings_def)
  have call: "gemini_performGeneration constant_backend req ?st
      = (Inr ''{}'', \<lparr>requests = 1, signal_aborted = False\<rparr>)" for req
    by (simp add: gemini_performGeneration_def constant_backend_def)
  have retry: "withRetry_default (gemini_performGeneration constant_backend req) ?st
      = (Inr ''{}'', \<lparr>requests = 1, signal_aborted = False\<rparr>, [Attempt])" for req
    unfolding withRetry_default_def withRetry_def
    by (subst withRetry_from.simps) (simp add: call)
  have post: "gemini_postprocess simple_csv example_parse example_settings ''{}'' = Inr ?r"
    by (simp add: gemini_postprocess_def example_parse_def lang)
  have run: "gemini_generateTags simple_csv constant_backend example_parse ''img'' ''image/png''
      ''one'' example_settings None None ?st
      = (Inr ?r, \<lparr>requests = 1, signal_aborted = False\<rparr>, [Attempt])"
    by (simp add: gemini_generateTags_def retry post)
  from generateTags_library_text[where img="''img''" and mime="''image/png''"
      and settings=example_settings and pinned=None and excluded=None and ai=constant_backend
      and ?lib1.0="''one''" and ?lib2.0="''two''" and csv=simple_csv and parse=example_parse
      and st="?st"] same
  have "gemini_generateTags simple_csv constant_backend example_parse ''img'' ''image/png''
      ''one'' example_settings None None ?st
    = gemini_generateTags simple_csv constant_backend example_parse ''img'' ''image/png''
      ''two'' example_settings None None ?st"
    by blast
  with run show ?thesis by simp
qed

section \<open>Properties of the orchestrator\<close>

lemma new_OpenAICompatibleProvider_not_abort:
  "new_OpenAICompatibleProvider url key model = Inl e \<Longrightarrow> \<not> is_abort e"
  by (auto simp: new_OpenAICompatibleProvider_def split: if_splits)

lemma createProvider_not_abort: "createProvider env p ov = Inl e \<Longrightarrow> \<not> is_abort e"
  by (cases p)
     (auto simp: createProvider_def Let_def new_GeminiProvider_def
           dest: new_OpenAICompatibleProvider_not_abort split: if_splits option.splits)

text \<open>
  Claim C5, as the code has it. For every orchestrated call with failover enabled and a
  backup provider named in the configuration, \<open>first\<close> being what the primary yields
  (what its construction threw, or the answer of its \<^verbatim>\<open>generateTags\<close>): a result of
  the primary is returned with \<open>usedFailover = false\<close>; a cancellation of the primary is
  thrown on and nothing else is invoked; after any other failure of the primary the
  backup provider is constructed, and if that construction throws, no backup is invoked
  and the combined error of both failures is thrown, while if it succeeds the backup is
  invoked exactly once, its result is returned with \<open>usedFailover = true\<close> and the
  identity of the backup, its cancellation is thrown on, and any other failure of it
  gives the one combined error of both failures.
\<close>

theorem generateTags_failover_protocol:
  assumes "enableFailover (llmConfig env)" and "failoverProvider (llmConfig env) = Some fp"
  shows
    "let run = generateTags env call active;
         primary = ensureProviderIsActive env active;
         called = (case primary of Inl e \<Rightarrow> [] | Inr p \<Rightarrow> [p]);
         first = (case primary of Inl e \<Rightarrow> Inl e | Inr p \<Rightarrow> call 0 p);
         backup = createProvider env fp (failoverConfig env fp)
     in (\<forall>r. first = Inr r \<longrightarrow>
           outcome run = Inr \<lparr>result = r, usedFailover = False, providerName = provider (llmConfig env)\<rparr>
           \<and> invoked run = called)
      \<and> (\<forall>err. first = Inl err \<and> is_abort err \<longrightarrow> outcome run = Inl err \<and> invoked run = called)
      \<and> (\<forall>err. first = Inl err \<and> \<not> is_abort err \<longrightarrow>
            (\<forall>e2. backup = Inl e2 \<longrightarrow>
               invoked run = called
               \<and> outcome run = Inl (Error (combined_message (provider (llmConfig env)) err fp e2)))
          \<and> (\<forall>b. backup = Inr b \<longrightarrow>
               invoked run = called @ [b]
               \<and> (\<forall>r. call (length called) b = Inr r \<longrightarrow>
                     outcome run = Inr \<lparr>result = r, usedFailover = True, providerName = fp\<rparr>)
               \<and> (\<forall>e2. call (length called) b = Inl e2 \<and> is_abort e2 \<longrightarrow> outcome run = Inl e2)
               \<and> (\<forall>e2. call (length called) b = Inl e2 \<and> \<not> is_abort e2 \<longrightarrow>
                     outcome run
                       = Inl (Error (combined_message (provider (llmConfig env)) err fp e2)))))"
proof (cases "ensureProviderIsActive env active")
  case (Inl e)
  then show ?thesis
    using assms
    by (auto simp: generateTags_def failover_def Let_def
             dest: createProvider_not_abort split: sum.splits)
next
  case (Inr p)
  then show ?thesis
    using assms
    by (auto simp: generateTags_def failover_def Let_def
             dest: createProvider_not_abort split: sum.splits)
qed

text \<open>
  The theorem at a configuration whose backup has a stored key: the primary fails with
  a plain error, the backup is invoked once and succeeds.
\<close>

theorem generateTags_failover_protocol_witness:
  "outcome (generateTags backup_with_key primary_fails None)
     = Inr \<lparr>result = 7, usedFailover = True, providerName = openai\<rparr>
   \<and> invoked (generateTags backup_with_key primary_fails None)
     = [GeminiProvider ''k'',
        OpenAICompatibleProvider ''https://api.openai.com/v1'' (Some ''sk'') ''gpt-4o'']"
proof -
  have cfg: "enableFailover (llmConfig backup_with_key)"
    "failoverProvider (llmConfig backup_with_key) = Some openai"
    by (simp_all add: backup_with_key_def backup_without_key_def)
  have primary: "ensureProviderIsActive backup_with_key None = Inr (GeminiProvider ''k'')"
    by code_simp
  have backup: "createProvider backup_with_key openai (failoverConfig backup_with_key openai)
      = Inr (OpenAICompatibleProvider ''https://api.openai.com/v1'' (Some ''sk'') ''gpt-4o'')"
    by code_simp
  have first: "primary_fails 0 (GeminiProvider ''k'') = Inl (Error ''boom'')"
    by (simp add: primary_fails_def)
  have second: "primary_fails (Suc 0) b = Inr 7" for b
    by (simp add: primary_fails_def)
  from generateTags_failover_protocol[OF cfg, of primary_fails None]
  show ?thesis
    unfolding Let_def primary backup by (simp add: first second)
qed

text \<open>
  Claim C5 as stated fails where the backup provider cannot be constructed. Failover is
  enabled and the backup \<open>openai\<close> is named in the configuration, but no key is stored
  for it; the primary fails with an error that is not a cancellation. The constructor of
  the backup throws, so the only provider invoked is the primary: the backup is invoked
  zero times, not once, and the combined error is thrown.
\<close>

theorem generateTags_failover_counterexample:
  "enableFailover (llmConfig backup_without_key)
   \<and> failoverProvider (llmConfig backup_without_key) = Some openai
   \<and> primary_fails 0 (GeminiProvider ''k'') = Inl (Error ''boom'')
   \<and> \<not> is_abort (Error ''boom'')
   \<and> createProvider backup_without_key openai (failoverConfig backup_without_key openai)
       = Inl (Error ''OpenAI provider requires an API Key.'')
   \<and> invoked (generateTags backup_without_key primary_fails None) = [GeminiProvider ''k'']
   \<and> outcome (generateTags backup_without_key primary_fails None)
       = Inl (Error (combined_message gemini (Error ''boom'') openai
                       (Error ''OpenAI provider requires an API Key.'')))"
  by code_simp

section \<open>Properties of the batch controller\<close>

lemma batchItems_interfere [simp]: "batchItems (interfere d s) = batchItems s"
  by (cases d) (simp_all add: stopGeneration_def unmount_def split: option.splits)

lemma batchItems_update_item [simp]:
  "batchItems (update_item ident f s) = map (\<lambda>i. if item_id i = ident then f i else i) (batchItems s)"
  by (simp add: update_item_def)

lemma abortControllerRef_update_item [simp]:
  "abortControllerRef (update_item ident f s) = abortControllerRef s"
  by (simp add: update_item_def)

text \<open>The loop over a list that is cut in two: the second part runs unless the first broke.\<close>

lemma batch_loop_append:
  "batch_loop world (pre @ rest) (s, c, f) =
     (case batch_loop world pre (s, c, f) of
        (s', c', f', stopped) \<Rightarrow>
          if stopped then (s', c', f', True) else batch_loop world rest (s', c', f'))"
proof (induction pre arbitrary: s c f)
  case Nil
  show ?case by simp
next
  case (Cons item pre)
  show ?case
    by (simp add: Cons Let_def split: option.splits prod.splits sum.splits)
qed

text \<open>Every item the loop passes without a break is counted, as completed or as failed.\<close>

lemma batch_loop_counts:
  "batch_loop world pre (s, c, f) = (s', c', f', False) \<Longrightarrow> c' + f' = c + f + length pre"
proof (induction pre arbitrary: s c f)
  case Nil
  then show ?case by simp
next
  case (Cons item pre)
  from Cons.prems show ?case
    by (auto simp: Let_def split: if_splits option.splits prod.splits sum.splits
             dest!: Cons.IH)
qed

text \<open>
  The loop keeps the identities of the items in their places and changes no item whose
  identity is not the identity of an item it went through.
\<close>

lemma batch_loop_frame:
  "batch_loop world xs (s, c, f) = (s', c', f', stopped) \<Longrightarrow>
     map item_id (batchItems s') = map item_id (batchItems s) \<and>
     (\<forall>j<length (batchItems s).
         item_id (batchItems s ! j) \<notin> item_id ` set xs \<longrightarrow> batchItems s' ! j = batchItems s ! j)"
proof (induction xs arbitrary: s c f)
  case Nil
  then show ?case by simp
next
  case (Cons item xs)
  have ids: "map item_id (map (\<lambda>i. if item_id i = ident then i\<lparr>item_status := st\<rparr> else i) its)
      = map item_id its" for ident st and its :: "'a BatchItem list"
    by (induction its) simp_all
  have ids2: "map item_id (map (\<lambda>i. if item_id i = ident then g i else i) its) = map item_id its"
    if "\<And>i. item_id (g i) = item_id i" for ident g and its :: "'a BatchItem list"
    using that by (induction its) simp_all
  from Cons.prems show ?case
    by (auto simp: Let_def ids2 split: if_splits option.splits prod.splits sum.splits
             dest!: Cons.IH)
qed

text \<open>The step of the loop at an item whose call ends in the cancellation.\<close>

lemma batch_loop_cancelled:
  assumes "abortControllerRef s = Some False" "item_status item \<noteq> completed"
    and "world item = (Inl err, during)" "is_abort err"
  shows "batch_loop world (item # post) (s, c, f) =
     (update_item (item_id item) (\<lambda>i. i\<lparr>item_status := pending\<rparr>)
        (interfere during
           ((update_item (item_id item) (\<lambda>i. i\<lparr>item_status := processing\<rparr>) s)
              \<lparr>activeBatchItemId := Some (item_id item)\<rparr>)),
      c, f, True)"
  using assms by (simp add: Let_def)

lemma batchItems_batch_report [simp]: "batchItems (batch_report s0 c f s) = batchItems s"
  by (simp add: batch_report_def Let_def)

lemma batchSummary_batch_report:
  "batchSummary (batch_report s0 c f s) = (if 0 < c \<or> 0 < f then Some (c, f) else batchSummary s)"
  by (simp add: batch_report_def Let_def)

lemma batchSummary_interfere [simp]: "batchSummary (interfere d s) = batchSummary s"
  by (cases d) (simp_all add: stopGeneration_def unmount_def split: option.splits)

lemma batchSummary_update_item [simp]: "batchSummary (update_item ident g s) = batchSummary s"
  by (simp add: update_item_def)

lemma batch_loop_batchSummary:
  "batch_loop world xs (s, c, f) = (s', c', f', stopped) \<Longrightarrow> batchSummary s' = batchSummary s"
proof (induction xs arbitrary: s c f)
  case Nil
  then show ?case by simp
next
  case (Cons item xs)
  from Cons.prems show ?case
    by (auto simp: Let_def split: if_splits option.splits prod.splits sum.splits
             dest!: Cons.IH)
qed

text \<open>
  Claim C7, as the code has it. In a run over items with pairwise different identities,
  let the loop have passed the items \<open>pre\<close> without a break, counting \<open>c\<close> of them
  completed and \<open>f\<close> failed, and let the call for the next item \<open>item\<close>, which is not
  completed and is reached with a controller that has not fired, end in the
  cancellation. Then in the state the run ends in, \<open>item\<close> is \<open>pending\<close> and every later
  item is as it was before the run. Every item of \<open>pre\<close> has been counted
  (\<open>c + f = length pre\<close>), so the aggregate report is left out only when the cancelled
  item is the first of the batch; otherwise the summary is set to \<open>(c, f)\<close> and the
  toast of the report is the last one shown.
\<close>

theorem generateBatch_cancellation:
  assumes "\<not> isProcessing s0" and "truthy tagDataCsv"
    and "batchItems s0 = pre @ item # post"
    and "distinct (map item_id (batchItems s0))"
    and "batch_loop world pre
           (s0\<lparr>abortControllerRef := Some False, isProcessing := True, batchSummary := None\<rparr>, 0, 0)
         = (s1, c, f, False)"
    and "abortControllerRef s1 = Some False"
    and "item_status item \<noteq> completed"
    and "world item = (Inl err, during)" and "is_abort err"
  shows
    "item_status (batchItems (generateBatch world tagDataCsv s0) ! length pre) = pending
     \<and> (\<forall>j. length pre < j \<and> j < length (batchItems s0) \<longrightarrow>
           batchItems (generateBatch world tagDataCsv s0) ! j = batchItems s0 ! j)
     \<and> c + f = length pre
     \<and> batchSummary (generateBatch world tagDataCsv s0) = (if pre = [] then None else Some (c, f))
     \<and> (pre \<noteq> [] \<longrightarrow>
           last (toasts (generateBatch world tagDataCsv s0))
             = (msg_batch_summary c f, if 0 < c then Toast_success else Toast_info))"
proof -
  let ?init = "s0\<lparr>abortControllerRef := Some False, isProcessing := True, batchSummary := None\<rparr>"
  let ?proc = "(update_item (item_id item) (\<lambda>i. i\<lparr>item_status := processing\<rparr>) s1)
                 \<lparr>activeBatchItemId := Some (item_id item)\<rparr>"
  let ?cancel = "update_item (item_id item) (\<lambda>i. i\<lparr>item_status := pending\<rparr>)
                   (interfere during ?proc)"
  let ?final = "generateBatch world tagDataCsv s0"
  have cancelled: "batch_loop world (item # post) (s1, c, f) = (?cancel, c, f, True)"
    by (rule batch_loop_cancelled[where world=world and item=item and s=s1 and err=err
          and during=during and post=post and c=c and f=f, OF assms(6,7,8,9)])
  have "batch_loop world (pre @ item # post) (?init, 0, 0) = (?cancel, c, f, True)"
    by (simp only: batch_loop_append assms(5) cancelled prod.case if_False)
  then have loop: "batch_loop world (batchItems s0) (?init, 0, 0) = (?cancel, c, f, True)"
    by (simp only: assms(3))
  have final: "?final = batch_report s0 c f (?cancel\<lparr>isProcessing := False, abortControllerRef := None\<rparr>)"
    using assms(1,2) loop by (simp add: generateBatch_def)
  have items: "batchItems ?final
      = map (\<lambda>i. if item_id i = item_id item then i\<lparr>item_status := pending\<rparr> else i)
          (map (\<lambda>i. if item_id i = item_id item then i\<lparr>item_status := processing\<rparr> else i)
             (batchItems s1))"
    unfolding final by simp
  from batch_loop_frame[OF assms(5)]
  have ids: "map item_id (batchItems s1) = map item_id (batchItems s0)"
    and frame: "\<forall>j<length (batchItems s0).
         item_id (batchItems s0 ! j) \<notin> item_id ` set pre \<longrightarrow> batchItems s1 ! j = batchItems s0 ! j"
    by simp_all
  have len: "length (batchItems s1) = length (batchItems s0)"
    using ids by (metis length_map)
  have id_at: "item_id (batchItems s1 ! j) = item_id (batchItems s0 ! j)"
    if "j < length (batchItems s0)" for j
    using ids that len by (metis nth_map)
  have here: "batchItems s0 ! length pre = item"
    by (simp add: assms(3))
  have lp: "length pre < length (batchItems s0)"
    by (simp add: assms(3))
  have 1: "item_status (batchItems ?final ! length pre) = pending"
    unfolding items using lp len id_at[OF lp] here by simp
  have key: "item_id (batchItems s0 ! a) = item_id (batchItems s0 ! b) \<longleftrightarrow> a = b"
    if "a < length (batchItems s0)" "b < length (batchItems s0)" for a b
    using nth_eq_iff_index_eq[OF assms(4), of a b] that by simp
  have 2: "\<forall>j. length pre < j \<and> j < length (batchItems s0) \<longrightarrow>
           batchItems ?final ! j = batchItems s0 ! j"
  proof (intro allI impI)
    fix j assume j: "length pre < j \<and> j < length (batchItems s0)"
    let ?x = "batchItems s0 ! j"
    have ne: "item_id ?x \<noteq> item_id item"
      using key[of j "length pre"] j lp here by auto
    have "item_id ?x \<notin> item_id ` set pre"
    proof
      assume "item_id ?x \<in> item_id ` set pre"
      then obtain p where p: "p \<in> set pre" "item_id p = item_id ?x" by auto
      then obtain k where k: "k < length pre" "pre ! k = p"
        by (auto simp: in_set_conv_nth)
      then have "batchItems s0 ! k = p" by (simp add: assms(3) nth_append)
      with p(2) k(1) j lp key[of k j] show False by auto
    qed
    with frame j have same: "batchItems s1 ! j = ?x" by simp
    show "batchItems ?final ! j = ?x"
      unfolding items using j len same ne by simp
  qed
  have 3: "c + f = length pre"
    using batch_loop_counts[OF assms(5)] by simp
  have sum1: "batchSummary s1 = None"
    using batch_loop_batchSummary[OF assms(5)] by simp
  have 4: "batchSummary ?final = (if pre = [] then None else Some (c, f))"
    unfolding final using 3 sum1 by (auto simp: batchSummary_batch_report)
  have 5: "pre \<noteq> [] \<longrightarrow>
      last (toasts ?final) = (msg_batch_summary c f, if 0 < c then Toast_success else Toast_info)"
    unfolding final using 3 by (auto simp: batch_report_def Let_def)
  from 1 2 3 4 5 show ?thesis by blast
qed

text \<open>
  The theorem at a batch of five pending items where the first two calls succeed and
  the third is cancelled by the stop button: the third item is pending again, the
  fifth is as it was, and the summary counts the two completed items.
\<close>

theorem generateBatch_cancellation_witness:
  "item_status (batchItems (generateBatch cancel_at_third (Some ''x'') (fresh_batch five_items)) ! 2)
     = pending
   \<and> batchItems (generateBatch cancel_at_third (Some ''x'') (fresh_batch five_items)) ! 4
     = five_items ! 4
   \<and> batchSummary (generateBatch cancel_at_third (Some ''x'') (fresh_batch five_items)) = Some (2, 0)"
proof -
  let ?s0 = "fresh_batch five_items"
  let ?pre = "take 2 five_items" and ?item = "five_items ! 2" and ?post = "drop 3 five_items"
  let ?init = "?s0\<lparr>abortControllerRef := Some False, isProcessing := True, batchSummary := None\<rparr>"
  let ?s1 = "fst (batch_loop cancel_at_third ?pre (?init, 0, 0))"
  have a1: "\<not> isProcessing ?s0" by (simp add: fresh_batch_def)
  have a2: "truthy (Some ''x'')" by (simp add: truthy_def)
  have a3: "batchItems ?s0 = ?pre @ ?item # ?post" by code_simp
  have a4: "distinct (map item_id (batchItems ?s0))" by code_simp
  have "snd (batch_loop cancel_at_third ?pre (?init, 0, 0)) = (2, 0, False)" by code_simp
  then have a5: "batch_loop cancel_at_third ?pre (?init, 0, 0) = (?s1, 2, 0, False)"
    by (metis prod.collapse)
  have a6: "abortControllerRef ?s1 = Some False" by code_simp
  have a7: "item_status ?item \<noteq> completed" by code_simp
  have a8: "cancel_at_third ?item = (Inl AbortError, Stop_pressed)" by code_simp
  have a9: "is_abort AbortError" by (simp add: AbortError_def)
  have l: "length ?pre = 2" by code_simp
  have n: "length (batchItems ?s0) = 5" by code_simp
  have ne: "?pre \<noteq> []" by code_simp
  have four: "batchItems ?s0 ! 4 = five_items ! 4" by (simp add: fresh_batch_def)
  note inst = generateBatch_cancellation[OF a1 a2 a3 a4 a5 a6 a7 a8 a9, unfolded l n]
  from inst have 1: "item_status (batchItems (generateBatch cancel_at_third (Some ''x'') ?s0) ! 2)
      = pending"
    by blast
  from inst have "\<forall>j. 2 < j \<and> j < 5 \<longrightarrow>
      batchItems (generateBatch cancel_at_third (Some ''x'') ?s0) ! j = batchItems ?s0 ! j"
    by blast
  then have 2: "batchItems (generateBatch cancel_at_third (Some ''x'') ?s0) ! 4 = five_items ! 4"
    using four by simp
  from inst ne have 3: "batchSummary (generateBatch cancel_at_third (Some ''x'') ?s0) = Some (2, 0)"
    by simp
  from 1 2 3 show ?thesis by blast
qed

text \<open>
  Claim C7 as stated fails in its last part. In the same run the first two items
  complete, the cancellation comes while the third is processing, the third returns to
  \<open>pending\<close> and the last two are untouched; but the two counted items make the guard
  of the report true, so the summary is set and its toast is shown after the toast of
  the stop button.
\<close>

theorem generateBatch_cancellation_counterexample:
  "map item_status (batchItems (generateBatch cancel_at_third (Some ''x'') (fresh_batch five_items)))
     = [completed, completed, pending, pending, pending]
   \<and> batchSummary (generateBatch cancel_at_third (Some ''x'') (fresh_batch five_items)) = Some (2, 0)
   \<and> toasts (generateBatch cancel_at_third (Some ''x'') (fresh_batch five_items))
     = [(msg_batch_stopped, Toast_info), (msg_batch_summary 2 0, Toast_success)]"
  by code_simp

section \<open>Properties of the single-item controller\<close>

text \<open>
  What a start of a generation does to the controller that the reference holds: it
  fires its signal and puts a fresh controller, not fired, in its place.
\<close>

lemma generate_start_aborts_current:
  assumes "truthy tagDataCsv" "controllerRef s = Some g" "g < length (controllers s)"
  shows "controllers (generate_start tagDataCsv isRegeneration s) ! g = True
         \<and> controllerRef (generate_start tagDataCsv isRegeneration s) = Some (length (controllers s))
         \<and> controllers (generate_start tagDataCsv isRegeneration s) ! length (controllers s) = False"
  using assms
  by (simp add: generate_start_def abort_current_def Let_def nth_append)

text \<open>
  The \<^verbatim>\<open>finally\<close> block of a generation clears the reference whatever it holds, also
  the controller of a later generation.
\<close>

lemma generate_settle_clears_reference:
  "g \<in> set (in_flight s) \<Longrightarrow> controllerRef (generate_settle g answer s) = None"
  by (simp add: generate_settle_def generate_finally_def Let_def split: sum.splits)

text \<open>
  Claim C8 fails on the code. Three generations are started one after the other. The
  second start cancels the first generation, whose call then ends in the cancellation;
  its \<^verbatim>\<open>finally\<close> block sets the reference to \<^verbatim>\<open>null\<close> while the second generation
  is in flight. The third start therefore finds nothing to cancel: the tokens of the
  second and the third generation are both in flight and not cancelled, and when the
  orchestrator answers the second generation, that generation reaches its success
  effects after the third has started.
\<close>

theorem single_generator_stale_finally:
  "live_tokens (single_run (Some ''csv'')
      [Generate False, Generate False, Settle 0 (Inl AbortError), Generate False
         :: nat single_action])
     = [1, 2]
   \<and> controllerRef (single_run (Some ''csv'')
      [Generate False, Generate False, Settle 0 (Inl AbortError) :: nat single_action])
     = None
   \<and> in_flight (single_run (Some ''csv'')
      [Generate False, Generate False, Settle 0 (Inl AbortError) :: nat single_action])
     = [1]
   \<and> history (single_run (Some ''csv'')
      [Generate False, Generate False, Settle 0 (Inl AbortError), Generate False,
       Settle 1 (Inr \<lparr>result = 7, usedFailover = False, providerName = gemini\<rparr>)
         :: nat single_action])
     = [Started 0, Started 1, Returned_silently 0, Started 2, Succeeded 1]
   \<and> generatedResult (single_run (Some ''csv'')
      [Generate False, Generate False, Settle 0 (Inl AbortError), Generate False,
       Settle 1 (Inr \<lparr>result = 7, usedFailover = False, providerName = gemini\<rparr>)
         :: nat single_action])
     = Some 7"
  by code_simp

end
